theory Spec2Isabelle
  imports Main "HOL-Library.Word" "HOL-Library.Char_ord" "HOL-Library.List_Lexorder"
begin

section \<open>The value model: class JsonT of Json.h\<close>

text \<open>
  \<^verbatim>\<open>JsonT\<close> is a tagged union: the tag \<^verbatim>\<open>m_type\<close> (an \<^verbatim>\<open>enum class Type\<close>) and one
  payload. The embedding is a datatype with one constructor per tag. The payloads:
  \<^item> \<^verbatim>\<open>std::intmax_t\<close> is a 64-bit two's complement integer, a \<open>64 word\<close> read by \<open>sint\<close>;
  \<^item> \<^verbatim>\<open>double\<close> is the type parameter \<open>'f\<close>: the header never looks inside a double, it
    only hands it to the C++ library (\<^verbatim>\<open>stod\<close>, \<^verbatim>\<open>to_string\<close>, \<^verbatim>\<open>llroundl\<close>, casts). Those
    library functions are the fields of the record \<open>libm\<close> below and every function that
    calls one takes the record as its first argument;
  \<^item> \<^verbatim>\<open>std::string\<close> is a byte string, \<open>string\<close>;
  \<^item> \<^verbatim>\<open>std::vector<JsonT>\<close> is a list;
  \<^item> \<^verbatim>\<open>std::map<std::string, JsonT>\<close> is an association list. \<^verbatim>\<open>std::map\<close> keeps its keys
    unique and iterates in ascending key order (bytewise lexicographic, the order of
    \<open>string\<close> here); the operations below keep a list in that shape, see \<open>map_ok\<close>.
\<close>

datatype Type = TypeNull | TypeBool | TypeFloat | TypeInt | TypeString | TypeArray | TypeMap

type_synonym intmax_t = "64 word"

datatype 'f JsonT =
    JNull
  | JBool bool
  | JFloat 'f
  | JInt intmax_t
  | JString string
  | JArray "'f JsonT list"
  | JMap "(string \<times> 'f JsonT) list"

text \<open>The exceptions of the header. \<open>ParseException\<close> carries its member \<^verbatim>\<open>position\<close>
  (the message text is left out). \<open>undefined_behaviour\<close> marks the one place where the
  model would otherwise have to invent a value for an access C++ leaves undefined.\<close>

datatype exn = ParseException nat | out_of_range | undefined_behaviour

text \<open>The C++ library functions on \<^verbatim>\<open>double\<close> the header calls, as parameters.
  \<open>strtod_value s\<close> is the value \<^verbatim>\<open>strtod\<close> converts a text to that starts with a number;
  \<open>None\<close> is a range error (\<^verbatim>\<open>ERANGE\<close>), which \<^verbatim>\<open>std::stod\<close> turns into an exception.
  \<open>to_bytes\<close> is \<^verbatim>\<open>wstring_convert<codecvt_utf8_utf16<char16_t>>::to_bytes\<close> on a
  sequence of UTF-16 code units; \<open>None\<close> is its \<^verbatim>\<open>std::range_error\<close>.\<close>

record 'f libm =
  strtod_value :: "string \<Rightarrow> 'f option"
  to_string_d :: "'f \<Rightarrow> string"
  itod :: "intmax_t \<Rightarrow> 'f"
  llroundl :: "'f \<Rightarrow> intmax_t"
  zero_d :: "'f"
  to_bytes :: "nat list \<Rightarrow> string option"

subsection \<open>Introspection\<close>

fun type :: "'f JsonT \<Rightarrow> Type" where
  "type JNull = TypeNull"
| "type (JBool _) = TypeBool"
| "type (JFloat _) = TypeFloat"
| "type (JInt _) = TypeInt"
| "type (JString _) = TypeString"
| "type (JArray _) = TypeArray"
| "type (JMap _) = TypeMap"

definition isType :: "'f JsonT \<Rightarrow> Type \<Rightarrow> bool" where
  "isType j t = (type j = t)"

definition isNull :: "'f JsonT \<Rightarrow> bool" where
  "isNull j = isType j TypeNull"

subsection \<open>The coercing accessor get<U>\<close>

text \<open>One function per overload of \<^verbatim>\<open>get\<close>. Each is a \<^verbatim>\<open>switch\<close> on the tag with a
  default after it. \<open>get_integer\<close> is the overload for an integral \<^verbatim>\<open>U\<close> other than
  \<^verbatim>\<open>bool\<close>; the width of \<^verbatim>\<open>U\<close> is the length of the result word, and
  \<^verbatim>\<open>static_cast<U>\<close> of a 64-bit integer keeps its low bits (\<open>ucast\<close>). \<open>get_double\<close> is the
  floating overload at \<^verbatim>\<open>U = double\<close>, where \<^verbatim>\<open>static_cast<U>(m_float)\<close> is the identity.\<close>

fun get_bool :: "'f JsonT \<Rightarrow> bool" where
  "get_bool (JBool b) = b"
| "get_bool _ = False"

fun get_double :: "'f libm \<Rightarrow> 'f JsonT \<Rightarrow> 'f" where
  "get_double L (JFloat f) = f"
| "get_double L (JInt i) = itod L i"
| "get_double L _ = zero_d L"

fun get_integer :: "'f libm \<Rightarrow> 'f JsonT \<Rightarrow> 'a::len word" where
  "get_integer L (JBool b) = of_bool b"
| "get_integer L (JFloat f) = ucast (llroundl L f)"
| "get_integer L (JInt i) = ucast i"
| "get_integer L _ = ucast (0 :: intmax_t)"

fun get_string :: "'f JsonT \<Rightarrow> string" where
  "get_string (JString s) = s"
| "get_string _ = []"

fun get_Array :: "'f JsonT \<Rightarrow> 'f JsonT list" where
  "get_Array (JArray a) = a"
| "get_Array _ = []"

fun get_Map :: "'f JsonT \<Rightarrow> (string \<times> 'f JsonT) list" where
  "get_Map (JMap m) = m"
| "get_Map _ = []"

subsection \<open>std::map as a sorted association list\<close>

text \<open>\<open>map_find\<close> is \<^verbatim>\<open>std::map::find\<close>; \<open>map_subscript\<close> is \<^verbatim>\<open>std::map::operator[]\<close>, which
  inserts a default-constructed (Null) value at the key's place in the order when the
  key is absent and changes nothing when it is present; \<open>map_assign\<close> writes through a
  reference to the slot of a present key.\<close>

definition map_find :: "(string \<times> 'v) list \<Rightarrow> string \<Rightarrow> 'v option" where
  "map_find m k = map_of m k"

fun map_insert :: "string \<Rightarrow> 'v \<Rightarrow> (string \<times> 'v) list \<Rightarrow> (string \<times> 'v) list" where
  "map_insert k v [] = [(k, v)]"
| "map_insert k v ((k', v') # m) =
     (if k < k' then (k, v) # (k', v') # m
      else if k = k' then (k', v') # m
      else (k', v') # map_insert k v m)"

definition map_subscript :: "(string \<times> 'f JsonT) list \<Rightarrow> string \<Rightarrow> (string \<times> 'f JsonT) list" where
  "map_subscript m k = map_insert k JNull m"

fun map_assign :: "string \<Rightarrow> 'v \<Rightarrow> (string \<times> 'v) list \<Rightarrow> (string \<times> 'v) list" where
  "map_assign k v [] = []"
| "map_assign k v ((k', v') # m) =
     (if k' = k then (k', v) # m else (k', v') # map_assign k v m)"

definition map_ok :: "(string \<times> 'v) list \<Rightarrow> bool" where
  "map_ok m = (sorted (map fst m) \<and> distinct (map fst m))"

subsection \<open>References into a value\<close>

text \<open>The accessors return C++ references. A reference returned by an accessor of a value
  is either to one of its children or to the static \<^verbatim>\<open>m_emptyJson\<close>; \<open>ref\<close> says which,
  and \<open>deref\<close> reads through it.\<close>

datatype ref = MapElem string | ArrayElem nat | EmptyJson

fun deref :: "'f JsonT \<Rightarrow> ref \<Rightarrow> 'f JsonT" where
  "deref j (MapElem k) = (case map_find (get_Map j) k of Some c \<Rightarrow> c | None \<Rightarrow> JNull)"
| "deref j (ArrayElem i) = (if i < length (get_Array j) then get_Array j ! i else JNull)"
| "deref j EmptyJson = JNull"

text \<open>Writing through a reference to a child (\<^verbatim>\<open>ref = x\<close>, the copy assignment).\<close>

fun assign_ref :: "'f JsonT \<Rightarrow> ref \<Rightarrow> 'f JsonT \<Rightarrow> 'f JsonT" where
  "assign_ref (JMap m) (MapElem k) x = JMap (map_assign k x m)"
| "assign_ref (JArray a) (ArrayElem i) x = JArray (if i < length a then a[i := x] else a)"
| "assign_ref j _ x = j"

subsection \<open>clear, ensureMap, ensureArray and the subscript operators\<close>

definition clear :: "'f JsonT \<Rightarrow> 'f JsonT" where
  "clear j = JNull"

definition ensureMap :: "'f JsonT \<Rightarrow> 'f JsonT" where
  "ensureMap j = (if type j \<noteq> TypeMap then JMap [] else j)"

definition ensureArray :: "'f JsonT \<Rightarrow> 'f JsonT" where
  "ensureArray j = (if type j \<noteq> TypeArray then JArray [] else j)"

text \<open>The const subscript operators and the two \<^verbatim>\<open>at\<close>: the reference each returns.\<close>

definition subscript_key_const :: "'f JsonT \<Rightarrow> string \<Rightarrow> ref" where
  "subscript_key_const j key =
     (case map_find (get_Map j) key of Some c \<Rightarrow> MapElem key | None \<Rightarrow> EmptyJson)"

definition at_key :: "'f JsonT \<Rightarrow> string \<Rightarrow> exn + ref" where
  "at_key j key =
     (if type j \<noteq> TypeMap then Inl out_of_range
      else case map_find (get_Map j) key of
             None \<Rightarrow> Inl out_of_range
           | Some c \<Rightarrow> Inr (MapElem key))"

definition subscript_index_const :: "'f JsonT \<Rightarrow> nat \<Rightarrow> ref" where
  "subscript_index_const j index =
     (if index < length (get_Array j) then ArrayElem index else EmptyJson)"

definition at_index :: "'f JsonT \<Rightarrow> nat \<Rightarrow> exn + ref" where
  "at_index j index =
     (if type j \<noteq> TypeArray then Inl out_of_range
      else if index \<ge> length (get_Array j) then Inl out_of_range
      else Inr (ArrayElem index))"

text \<open>The mutable subscript operators return the receiver as they leave it and the
  reference. \<^verbatim>\<open>a.resize(index + 1)\<close> appends Null values. An index is a \<open>nat\<close>: the model does
  not bound the memory.\<close>

definition subscript_key :: "'f JsonT \<Rightarrow> string \<Rightarrow> 'f JsonT \<times> ref" where
  "subscript_key j key = (JMap (map_subscript (get_Map (ensureMap j)) key), MapElem key)"

definition resize :: "'f JsonT list \<Rightarrow> nat \<Rightarrow> 'f JsonT list" where
  "resize a n = (if n \<le> length a then take n a else a @ replicate (n - length a) JNull)"

definition subscript_index :: "'f JsonT \<Rightarrow> nat \<Rightarrow> 'f JsonT \<times> ref" where
  "subscript_index j index =
     (let a = get_Array (ensureArray j)
      in (JArray (if index \<ge> length a then resize a (index + 1) else a), ArrayElem index))"

text \<open>\<^verbatim>\<open>v[index] = x\<close> and \<^verbatim>\<open>v[key] = x\<close>: the subscript, then the assignment through the
  reference it returned.\<close>

definition index_assign :: "'f JsonT \<Rightarrow> nat \<Rightarrow> 'f JsonT \<Rightarrow> 'f JsonT" where
  "index_assign v index x = (case subscript_index v index of (v', r) \<Rightarrow> assign_ref v' r x)"

definition key_assign :: "'f JsonT \<Rightarrow> string \<Rightarrow> 'f JsonT \<Rightarrow> 'f JsonT" where
  "key_assign v key x = (case subscript_key v key of (v', r) \<Rightarrow> assign_ref v' r x)"

subsection \<open>Move construction and move assignment\<close>

text \<open>\<^verbatim>\<open>JsonT(JsonT&& s)\<close> copies the tag of \<open>s\<close> and moves the payload; it never writes
  \<^verbatim>\<open>s.m_type\<close>. The result is the pair (new object, \<open>s\<close> afterwards). A moved-from
  \<^verbatim>\<open>std::vector\<close> is empty; a moved-from \<^verbatim>\<open>std::string\<close> or \<^verbatim>\<open>std::map\<close> is in a valid
  but unspecified state, the parameters \<open>rs\<close> and \<open>rm\<close>.
  \<^verbatim>\<open>operator=(JsonT&& s)\<close> does nothing when \<open>s\<close> is the receiver itself (\<open>same\<close>) and
  otherwise clears the receiver and move-constructs it in place.\<close>

fun move_construct :: "string \<Rightarrow> (string \<times> 'f JsonT) list \<Rightarrow> 'f JsonT \<Rightarrow> 'f JsonT \<times> 'f JsonT" where
  "move_construct rs rm JNull = (JNull, JNull)"
| "move_construct rs rm (JBool b) = (JBool b, JBool b)"
| "move_construct rs rm (JFloat f) = (JFloat f, JFloat f)"
| "move_construct rs rm (JInt i) = (JInt i, JInt i)"
| "move_construct rs rm (JString s) = (JString s, JString rs)"
| "move_construct rs rm (JArray a) = (JArray a, JArray [])"
| "move_construct rs rm (JMap m) = (JMap m, JMap rm)"

definition move_assign ::
  "string \<Rightarrow> (string \<times> 'f JsonT) list \<Rightarrow> bool \<Rightarrow> 'f JsonT \<Rightarrow> 'f JsonT \<Rightarrow> 'f JsonT \<times> 'f JsonT" where
  "move_assign rs rm same this s =
     (if same then (s, s) else move_construct rs rm s)"

section \<open>The C++ library functions the header calls\<close>

abbreviation LF :: char where "LF \<equiv> CHR 0x0A"
abbreviation CR :: char where "CR \<equiv> CHR 0x0D"
abbreviation TAB :: char where "TAB \<equiv> CHR 0x09"
abbreviation BS :: char where "BS \<equiv> CHR 0x08"
abbreviation DQ :: char where "DQ \<equiv> CHR 0x22"
abbreviation BSL :: char where "BSL \<equiv> CHR 0x5C"

text \<open>The character classes of \<^verbatim>\<open>std::regex\<close> in the "C" locale: \<^verbatim>\<open>\s\<close> is space, TAB, LF,
  VT, FF and CR; \<^verbatim>\<open>[0-9]\<close> and \<^verbatim>\<open>[0-9a-fA-F]\<close> are the ASCII digits.\<close>

definition isspace :: "char \<Rightarrow> bool" where
  "isspace c = (c = CHR 0x20 \<or> c = TAB \<or> c = LF \<or> c = CHR 0x0B \<or> c = CHR 0x0C \<or> c = CR)"

definition isdigit :: "char \<Rightarrow> bool" where
  "isdigit c = (c \<in> set ''0123456789'')"

definition isxdigit :: "char \<Rightarrow> bool" where
  "isxdigit c = (c \<in> set ''0123456789abcdefABCDEF'')"

definition starts_with :: "string \<Rightarrow> string \<Rightarrow> bool" where
  "starts_with l s = (take (length l) s = l)"

subsection \<open>Decimal integers: std::to_string(intmax_t) and std::stoll\<close>

definition digit_char :: "nat \<Rightarrow> char" where
  "digit_char d = ''0123456789'' ! d"

fun dec :: "nat \<Rightarrow> string" where
  "dec n = (if n < 10 then [digit_char n] else dec (n div 10) @ [digit_char (n mod 10)])"

declare dec.simps [simp del]

definition to_string_i :: "intmax_t \<Rightarrow> string" where
  "to_string_i w = (if sint w < 0 then CHR ''-'' # dec (nat (- sint w)) else dec (nat (sint w)))"

definition digit_val :: "char \<Rightarrow> nat" where
  "digit_val c = of_char c - 48"

definition dec_val :: "string \<Rightarrow> nat" where
  "dec_val ds = foldl (\<lambda>a c. 10 * a + digit_val c) 0 ds"

text \<open>\<^verbatim>\<open>std::stoll\<close> (\<^verbatim>\<open>strtoll\<close>, base 10): white space, a sign, digits; \<open>None\<close> is one of
  its two exceptions, \<^verbatim>\<open>invalid_argument\<close> (no digit) and \<^verbatim>\<open>out_of_range\<close> (the value
  does not fit 64 bits). The header catches both in the same handler.\<close>

definition stoll :: "string \<Rightarrow> intmax_t option" where
  "stoll s =
     (let t = dropWhile isspace s;
          neg = starts_with ''-'' t;
          u = (if starts_with ''-'' t \<or> starts_with ''+'' t then tl t else t);
          ds = takeWhile isdigit u;
          n = (if neg then - int (dec_val ds) else int (dec_val ds))
      in if ds = [] then None
         else if - (2 ^ 63) \<le> n \<and> n < 2 ^ 63 then Some (word_of_int n)
         else None)"

subsection \<open>std::stod\<close>

text \<open>\<^verbatim>\<open>std::stod\<close> throws \<^verbatim>\<open>invalid_argument\<close> when \<^verbatim>\<open>strtod\<close> converts nothing: the text
  after white space and a sign starts with neither a digit, nor a point and a digit, nor
  \<^verbatim>\<open>inf\<close> or \<^verbatim>\<open>nan\<close> in either case. Otherwise the value, or \<^verbatim>\<open>out_of_range\<close>, is the
  library's (\<open>strtod_value\<close>). \<open>None\<close> is either exception.\<close>

definition strtod_converts :: "string \<Rightarrow> bool" where
  "strtod_converts s =
     (let t = dropWhile isspace s;
          u = (if starts_with ''-'' t \<or> starts_with ''+'' t then tl t else t)
      in case u of
           [] \<Rightarrow> False
         | c # r \<Rightarrow>
             isdigit c
             \<or> (c = CHR ''.'' \<and> (case r of [] \<Rightarrow> False | d # r' \<Rightarrow> isdigit d))
             \<or> (case r of
                   b # e # r' \<Rightarrow>
                     (c \<in> set ''iI'' \<and> b \<in> set ''nN'' \<and> e \<in> set ''fF'')
                     \<or> (c \<in> set ''nN'' \<and> b \<in> set ''aA'' \<and> e \<in> set ''nN'')
                 | _ \<Rightarrow> False))"

definition stod :: "'f libm \<Rightarrow> string \<Rightarrow> 'f option" where
  "stod L s = (if strtod_converts s then strtod_value L s else None)"

subsection \<open>std::regex_replace with a literal pattern\<close>

text \<open>Every pattern the header gives to \<^verbatim>\<open>regex_replace\<close> matches one fixed text, and no
  replacement holds a \<^verbatim>\<open>$\<close>: all non-overlapping occurrences, left to right, are replaced
  by the replacement as it is written.\<close>

function replace_all :: "string \<Rightarrow> string \<Rightarrow> string \<Rightarrow> string" where
  "replace_all pat dst [] = []"
| "replace_all pat dst (c # s) =
     (if pat \<noteq> [] \<and> starts_with pat (c # s)
      then dst @ replace_all pat dst (drop (length pat) (c # s))
      else c # replace_all pat dst s)"
  by pat_completeness auto
termination
  by (relation "measure (\<lambda>(pat, dst, s). length s)") auto

declare replace_all.simps [simp del]

section \<open>stringify\<close>

text \<open>\<^verbatim>\<open>fEscape\<close> applies its table of six replacements in order.\<close>

definition fEscape_tbl :: "(string \<times> string) list" where
  "fEscape_tbl =
     [([BSL], [BSL, BSL]),
      ([DQ], [BSL, DQ]),
      ([CR], [BSL, CHR ''r'']),
      ([TAB], [BSL, CHR ''t'']),
      (''/'', [BSL, CHR ''/'']),
      ([BS], [BSL, CHR ''b''])]"

definition fEscape :: "string \<Rightarrow> string" where
  "fEscape s = foldl (\<lambda>result (re, dst). replace_all re dst result) s fEscape_tbl"

text \<open>\<^verbatim>\<open>s.pop_back()\<close> after the loop, done when the container has an element.\<close>

definition pop_back_if :: "bool \<Rightarrow> string \<Rightarrow> string" where
  "pop_back_if b s = (if b then butlast s else s)"

fun stringify :: "'f libm \<Rightarrow> 'f JsonT \<Rightarrow> string" where
  "stringify L JNull = ''null''"
| "stringify L (JBool b) = (if b then ''true'' else ''false'')"
| "stringify L (JFloat f) = to_string_d L f"
| "stringify L (JInt i) = to_string_i i"
| "stringify L (JString s) = [DQ] @ fEscape s @ [DQ]"
| "stringify L (JArray a) =
     pop_back_if (length a \<ge> 1) (''['' @ concat (map (\<lambda>i. stringify L i @ '','') a)) @ '']''"
| "stringify L (JMap m) =
     pop_back_if (length m \<ge> 1)
       (''{'' @ concat (map (\<lambda>i. [DQ] @ fEscape (fst i) @ [DQ] @ '':'' @ stringify L (snd i) @ '','') m))
     @ ''}''"

section \<open>parse\<close>

subsection \<open>The parser state\<close>

text \<open>The bit fields of \<^verbatim>\<open>State::flags\<close> (\<^verbatim>\<open>end\<close> and \<^verbatim>\<open>value\<close> are \<open>end_f\<close> and \<open>value_f\<close>
  here). The code only ever stores 0 to 4 in \<^verbatim>\<open>end\<close>, 0 to 2 in \<^verbatim>\<open>objectKey\<close> and 0 to 3
  in \<^verbatim>\<open>value\<close>, which fit their widths. \<^verbatim>\<open>flags.all = 0\<close> is \<open>flags0\<close>, and
  \<^verbatim>\<open>flags.all == 0\<close> is equality with it.\<close>

record Flags =
  bFinish :: bool
  bBegin :: bool
  end_f :: nat
  objectKey :: nat
  value_f :: nat

definition flags0 :: Flags where
  "flags0 = \<lparr>bFinish = False, bBegin = False, end_f = 0, objectKey = 0, value_f = 0\<rparr>"

text \<open>A \<^verbatim>\<open>JsonT*\<close> into the tree under \<^verbatim>\<open>state.result\<close> is the chain of child references
  that leads from \<^verbatim>\<open>result\<close> to the node (\<open>[]\<close> is \<^verbatim>\<open>&result\<close>). \<open>get_at\<close> reads through
  such a pointer and \<open>modify_at\<close> applies a member function to the node it points to.\<close>

type_synonym ptr = "ref list"

primrec get_at :: "'f JsonT \<Rightarrow> ptr \<Rightarrow> 'f JsonT" where
  "get_at j [] = j"
| "get_at j (r # p) = get_at (deref j r) p"

primrec modify_at :: "ptr \<Rightarrow> ('f JsonT \<Rightarrow> 'f JsonT) \<Rightarrow> 'f JsonT \<Rightarrow> 'f JsonT" where
  "modify_at [] f j = f j"
| "modify_at (r # p) f j = assign_ref j r (modify_at p f (deref j r))"

text \<open>An iterator into \<^verbatim>\<open>json\<close> is the rest of the text from its position on, so
  \<^verbatim>\<open>json.cend()\<close> is \<open>[]\<close> and the distance from \<^verbatim>\<open>json.cbegin()\<close> is \<open>position\<close>. The vector
  \<^verbatim>\<open>parents\<close> is a list with its last element (\<^verbatim>\<open>*parents.rbegin()\<close>) first.\<close>

record 'f State =
  json :: string
  result :: "'f JsonT"
  flags :: Flags
  parents :: "ptr list"
  it :: string
  itLineEnd :: string

definition State_init :: "string \<Rightarrow> 'f State" where
  "State_init s =
     \<lparr>json = s, result = JNull, flags = flags0\<lparr>bBegin := True, value_f := 3\<rparr>,
      parents = [[]], it = s, itLineEnd = []\<rparr>"

definition position :: "'f State \<Rightarrow> nat" where
  "position st = length (json st) - length (it st)"

definition throw :: "'f State \<Rightarrow> exn + 'f State" where
  "throw st = Inl (ParseException (position st))"

text \<open>The text between \<^verbatim>\<open>state.it\<close> and \<^verbatim>\<open>state.itLineEnd\<close>.\<close>

definition line :: "'f State \<Rightarrow> string" where
  "line st = take (length (it st) - length (itLineEnd st)) (it st)"

subsection \<open>The regular expressions of parse\<close>

text \<open>\<^verbatim>\<open>regex_search(it, cend, m, regex("\n")) ? m[0].second : cend\<close>: behind the first LF.\<close>

definition line_end :: "string \<Rightarrow> string" where
  "line_end s = (case dropWhile (\<lambda>c. c \<noteq> LF) s of [] \<Rightarrow> [] | c # r \<Rightarrow> r)"

text \<open>The token expression is \<^verbatim>\<open>^\s*(a1|a2|...)\<close>, its alternatives put together from the
  flags in this order. \<open>Lit\<close> is a fixed text, \<open>NonSpace\<close> is \<^verbatim>\<open>\S\<close> and \<open>Number\<close> is
  \<^verbatim>\<open>(-?[0-9]+(\.[0-9]*)?([eE][+-]?[0-9]+)?)\<close>.\<close>

datatype alt = Lit string | NonSpace | Number

definition token_alts :: "Flags \<Rightarrow> alt list" where
  "token_alts f =
     [Lit ''//'', Lit ''/*'']
     @ (if bFinish f then [NonSpace] else [])
     @ (if bBegin f then [Lit ''{'', Lit ''[''] else [])
     @ (if end_f f = 1 then [Lit ''}'']
        else if end_f f = 2 then [Lit ''}'', Lit '','']
        else if end_f f = 3 then [Lit '']'']
        else if end_f f = 4 then [Lit '']'', Lit '','']
        else [])
     @ (if objectKey f = 1 then [Lit [DQ]]
        else if objectKey f = 2 then [Lit '':'']
        else [])
     @ (if value_f f \<noteq> 0 then [Lit [DQ], Lit ''true'', Lit ''false'', Lit ''null'', Number] else [])"

text \<open>The number expression takes the longest text of its shape: each part is greedy and
  nothing follows it that could make the matcher give a character back. An exponent
  mark without digits after it is not part of the match.\<close>

definition match_exponent :: "string \<Rightarrow> string" where
  "match_exponent s =
     (case s of
        [] \<Rightarrow> []
      | e # r \<Rightarrow>
          if e = CHR ''e'' \<or> e = CHR ''E'' then
            (let sg = (if starts_with ''+'' r \<or> starts_with ''-'' r then take 1 r else []);
                 es = takeWhile isdigit (drop (length sg) r)
             in if es = [] then [] else e # sg @ es)
          else [])"

definition match_fraction :: "string \<Rightarrow> string" where
  "match_fraction s =
     (case s of
        [] \<Rightarrow> []
      | c # r \<Rightarrow> if c = CHR ''.'' then c # takeWhile isdigit r else [])"

definition match_number :: "string \<Rightarrow> string option" where
  "match_number s =
     (let sg = (if starts_with ''-'' s then ''-'' else []);
          ds = takeWhile isdigit (drop (length sg) s);
          fr = match_fraction (drop (length (sg @ ds)) s);
          ex = match_exponent (drop (length (sg @ ds @ fr)) s)
      in if ds = [] then None else Some (sg @ ds @ fr @ ex))"

fun match_alt :: "alt \<Rightarrow> string \<Rightarrow> string option" where
  "match_alt (Lit l) s = (if starts_with l s then Some l else None)"
| "match_alt NonSpace s = (case s of [] \<Rightarrow> None | c # r \<Rightarrow> if isspace c then None else Some [c])"
| "match_alt Number s = match_number s"

fun first_alt :: "alt list \<Rightarrow> string \<Rightarrow> string option" where
  "first_alt [] s = None"
| "first_alt (a # as) s = (case match_alt a s of Some tok \<Rightarrow> Some tok | None \<Rightarrow> first_alt as s)"

text \<open>\<open>regex_token f s\<close>: the text of group 1 and what is left of \<open>s\<close> behind the match. No
  alternative starts with white space, so \<^verbatim>\<open>\s*\<close> takes all of it.\<close>

definition regex_token :: "Flags \<Rightarrow> string \<Rightarrow> (string \<times> string) option" where
  "regex_token f s =
     (let t = dropWhile isspace s
      in case first_alt (token_alts f) t of
           None \<Rightarrow> None
         | Some tok \<Rightarrow> Some (tok, drop (length tok) t))"

text \<open>\<^verbatim>\<open>regex_search(it, cend, m, regex(".*(\n|$)"))\<close> always finds a match, and the leftmost
  one ends behind the first LF, or at the end of the text when there is none (a CR stops
  \<^verbatim>\<open>.*\<close>, and then the search starts again one character further on).
  \<^verbatim>\<open>regex(R"(\*\/)")\<close> finds the first \<^verbatim>\<open>*/\<close>.\<close>

fun block_end :: "string \<Rightarrow> string option" where
  "block_end [] = None"
| "block_end (c # s) = (if starts_with ''*/'' (c # s) then Some (drop 2 (c # s)) else block_end s)"

text \<open>The string expression is \<^verbatim>\<open>^(.*?)(e1|e2|...)\<close>. \<open>match_esc\<close> is group 2 at the start of a
  text, its alternatives in their order: a surrogate pair of \<^verbatim>\<open>\u\<close> escapes, one
  \<^verbatim>\<open>\u\<close> escape, the six two-character escapes, the closing quote. \<^verbatim>\<open>.*?\<close> is lazy and
  \<^verbatim>\<open>.\<close> matches neither LF nor CR, so \<open>regex_string\<close> stops at the first position where an
  alternative matches and fails when it meets a line terminator first. It returns group
  1, group 2 and the text behind the match.\<close>

definition is_u_escape :: "string \<Rightarrow> bool" where
  "is_u_escape s =
     (length s \<ge> 6 \<and> s ! 0 = BSL \<and> s ! 1 = CHR ''u'' \<and> list_all isxdigit (take 4 (drop 2 s)))"

definition is_surrogate_pair :: "string \<Rightarrow> bool" where
  "is_surrogate_pair s =
     (is_u_escape s \<and> is_u_escape (drop 6 s)
      \<and> s ! 2 \<in> set ''dD'' \<and> s ! 3 \<in> set ''89abAB''
      \<and> s ! 8 \<in> set ''dD'' \<and> s ! 9 \<in> set ''cdefCDEF'')"

definition mapReplace :: "(string \<times> string) list" where
  "mapReplace =
     [([BSL, DQ], [DQ]),
      ([BSL, CHR ''r''], [CR]),
      ([BSL, CHR ''t''], [TAB]),
      ([BSL, CHR ''/''], ''/''),
      ([BSL, CHR ''b''], [BS]),
      ([BSL, BSL], [BSL])]"

definition match_esc :: "string \<Rightarrow> string option" where
  "match_esc s =
     (if is_surrogate_pair s then Some (take 12 s)
      else if is_u_escape s then Some (take 6 s)
      else if length s \<ge> 2 \<and> take 2 s \<in> set (map fst mapReplace) then Some (take 2 s)
      else if starts_with [DQ] s then Some [DQ]
      else None)"

fun regex_string :: "string \<Rightarrow> (string \<times> string \<times> string) option" where
  "regex_string [] = None"
| "regex_string (c # s) =
     (case match_esc (c # s) of
        Some tok \<Rightarrow> Some ([], tok, drop (length tok) (c # s))
      | None \<Rightarrow>
          if c = LF \<or> c = CR then None
          else (case regex_string s of
                  None \<Rightarrow> None
                | Some (pre, tok, rest) \<Rightarrow> Some (c # pre, tok, rest)))"

text \<open>\<^verbatim>\<open>^-?[0-9]+$\<close> on the whole token.\<close>

definition is_integer_token :: "string \<Rightarrow> bool" where
  "is_integer_token s =
     (let ds = (if starts_with ''-'' s then tl s else s) in ds \<noteq> [] \<and> list_all isdigit ds)"



subsection \<open>The string token\<close>

definition xdigit_val :: "char \<Rightarrow> nat" where
  "xdigit_val c =
     (if isdigit c then of_char c - 48
      else if c \<in> set ''abcdef'' then of_char c - 87
      else of_char c - 55)"

definition hex_val :: "string \<Rightarrow> nat" where
  "hex_val s = foldl (\<lambda>a c. 16 * a + xdigit_val c) 0 s"

definition code_units :: "string \<Rightarrow> nat list" where
  "code_units tok =
     (if length tok = 12 then [hex_val (take 4 (drop 2 tok)), hex_val (take 4 (drop 8 tok))]
      else [hex_val (take 4 (drop 2 tok))])"

lemma is_u_escape_length: "is_u_escape s \<Longrightarrow> 6 \<le> length s"
  by (simp add: is_u_escape_def)

lemma is_surrogate_pair_length: "is_surrogate_pair s \<Longrightarrow> 12 \<le> length s"
  using is_u_escape_length[of "drop 6 s"] by (simp add: is_surrogate_pair_def)

lemma match_esc_length:
  assumes "match_esc s = Some tok"
  shows "tok \<noteq> [] \<and> length tok \<le> length s"
proof (cases "is_surrogate_pair s")
  case True
  with assms is_surrogate_pair_length[OF True] show ?thesis
    by (auto simp: match_esc_def)
next
  case sp: False
  show ?thesis
  proof (cases "is_u_escape s")
    case True
    with sp assms is_u_escape_length[OF True] show ?thesis
      by (auto simp: match_esc_def)
  next
    case False
    with sp assms show ?thesis
      by (cases s) (auto simp: match_esc_def starts_with_def split: if_splits)
  qed
qed

lemma regex_string_shorter:
  "regex_string s = Some (pre, tok, rest) \<Longrightarrow> length rest < length s"
proof (induction s arbitrary: pre tok rest)
  case Nil
  then show ?case by simp
next
  case (Cons c s)
  show ?case
  proof (cases "match_esc (c # s)")
    case (Some t)
    with Cons.prems match_esc_length[OF Some] show ?thesis
      by (cases t) auto
  next
    case None
    with Cons.prems obtain pre' where "regex_string s = Some (pre', tok, rest)"
      by (auto split: if_splits option.splits)
    from Cons.IH[OF this] show ?thesis by simp
  qed
qed

function decode_string :: "'f libm \<Rightarrow> string \<Rightarrow> string \<Rightarrow> string + string \<times> string" where
  "decode_string L res s =
     (case regex_string s of
        None \<Rightarrow> Inl s
      | Some (pre, tok, rest) \<Rightarrow>
          if tok = [DQ] then Inr (res @ pre, rest)
          else (case map_of mapReplace tok of
                  Some r \<Rightarrow> decode_string L (res @ pre @ r) rest
                | None \<Rightarrow>
                    (case to_bytes L (takeWhile (\<lambda>u. u \<noteq> 0) (code_units tok)) of
                       None \<Rightarrow> Inl rest
                     | Some su8 \<Rightarrow> decode_string L (res @ pre @ su8) rest)))"
  by pat_completeness auto
termination
  by (relation "measure (\<lambda>(L, res, s). length s)") (auto dest: regex_string_shorter)

declare decode_string.simps [simp del]


subsection \<open>setValue and setEnd\<close>

definition setValue :: "'f JsonT \<Rightarrow> 'f State \<Rightarrow> exn + 'f State" where
  "setValue v st =
     (let top = hd (parents st); parent = get_at (result st) top
      in if value_f (flags st) = 1 then
           Inr (st\<lparr>result := modify_at top (\<lambda>p. v) (result st),
                   parents := tl (parents st),
                   flags := flags0\<lparr>end_f := 2\<rparr>\<rparr>)
         else if value_f (flags st) = 2 then
           (if \<not> isType parent TypeArray then throw st
            else Inr (st\<lparr>result :=
                            modify_at top (\<lambda>p. index_assign p (length (get_Array p)) v) (result st),
                         flags := flags0\<lparr>end_f := 4\<rparr>\<rparr>))
         else if value_f (flags st) = 3 then
           Inr (st\<lparr>result := modify_at top (\<lambda>p. v) (result st),
                   flags := flags0\<lparr>bFinish := True\<rparr>\<rparr>)
         else throw st)"

definition setEnd :: "'f State \<Rightarrow> exn + 'f State" where
  "setEnd st =
     (if length (parents st) \<le> 1 then Inr (st\<lparr>flags := flags0\<lparr>bFinish := True\<rparr>\<rparr>)
      else
        (let st' = st\<lparr>parents := tl (parents st)\<rparr>;
             t = type (get_at (result st') (hd (parents st')))
         in if t = TypeMap then Inr (st'\<lparr>flags := flags0\<lparr>end_f := 2\<rparr>\<rparr>)
            else if t = TypeArray then Inr (st'\<lparr>flags := flags0\<lparr>end_f := 4\<rparr>\<rparr>)
            else throw st'))"

subsection \<open>The token handlers (mapToken)\<close>

definition on_line_comment :: "'f State \<Rightarrow> exn + 'f State" where
  "on_line_comment st = Inr (st\<lparr>it := line_end (it st)\<rparr>)"

definition on_block_comment :: "'f State \<Rightarrow> exn + 'f State" where
  "on_block_comment st =
     (case block_end (it st) of None \<Rightarrow> throw st | Some r \<Rightarrow> Inr (st\<lparr>it := r\<rparr>))"

text \<open>\<^verbatim>\<open>{\<close> and \<^verbatim>\<open>[\<close> differ in the \<^verbatim>\<open>ensure\<close> they call and in the flags they leave.\<close>

definition on_begin :: "('f JsonT \<Rightarrow> 'f JsonT) \<Rightarrow> Flags \<Rightarrow> 'f State \<Rightarrow> exn + 'f State" where
  "on_begin ensure fl st =
     (let top = hd (parents st); parent = get_at (result st) top
      in if isType parent TypeArray then
           (let n = length (get_Array parent);
                v = top @ [ArrayElem n];
                r1 = modify_at top (\<lambda>p. fst (subscript_index p n)) (result st);
                r2 = modify_at v ensure r1
            in Inr (st\<lparr>result := r2, parents := v # parents st, flags := fl\<rparr>))
         else if \<not> isNull parent then throw st
         else Inr (st\<lparr>result := modify_at top ensure (result st), flags := fl\<rparr>))"

definition on_object_begin :: "'f State \<Rightarrow> exn + 'f State" where
  "on_object_begin st = on_begin ensureMap (flags0\<lparr>objectKey := 1, end_f := 1\<rparr>) st"

definition on_array_begin :: "'f State \<Rightarrow> exn + 'f State" where
  "on_array_begin st = on_begin ensureArray (flags0\<lparr>bBegin := True, value_f := 2, end_f := 3\<rparr>) st"

definition on_colon :: "'f State \<Rightarrow> exn + 'f State" where
  "on_colon st = Inr (st\<lparr>flags := flags0\<lparr>bBegin := True, value_f := 1\<rparr>\<rparr>)"

definition on_object_end :: "'f State \<Rightarrow> exn + 'f State" where
  "on_object_end st =
     (if \<not> isType (get_at (result st) (hd (parents st))) TypeMap then throw st else setEnd st)"

definition on_array_end :: "'f State \<Rightarrow> exn + 'f State" where
  "on_array_end st =
     (if \<not> isType (get_at (result st) (hd (parents st))) TypeArray then throw st else setEnd st)"

definition on_comma :: "'f State \<Rightarrow> exn + 'f State" where
  "on_comma st =
     (if end_f (flags st) = 2 then Inr (st\<lparr>flags := flags0\<lparr>objectKey := 1\<rparr>\<rparr>)
      else if end_f (flags st) = 4 then Inr (st\<lparr>flags := flags0\<lparr>bBegin := True, value_f := 2\<rparr>\<rparr>)
      else throw st)"

text \<open>The string handler: the decoding loop runs on the rest of the line; an exception
  leaves \<^verbatim>\<open>state.it\<close> where the loop had moved it. A key is looked up with the mutable
  \<^verbatim>\<open>operator[]\<close> of the parent, cleared, and pushed.\<close>

definition on_string :: "'f libm \<Rightarrow> 'f State \<Rightarrow> exn + 'f State" where
  "on_string L st =
     (case decode_string L [] (line st) of
        Inl r \<Rightarrow> throw (st\<lparr>it := r @ itLineEnd st\<rparr>)
      | Inr (sText, r) \<Rightarrow>
          (let st1 = st\<lparr>it := r @ itLineEnd st\<rparr>
           in if objectKey (flags st1) = 1 then
                (let top = hd (parents st1);
                     v = top @ [MapElem sText];
                     r1 = modify_at top (\<lambda>p. fst (subscript_key p sText)) (result st1);
                     r2 = modify_at v clear r1
                 in Inr (st1\<lparr>result := r2, parents := v # parents st1,
                            flags := flags0\<lparr>objectKey := 2\<rparr>\<rparr>))
              else setValue (JString sText) st1))"

definition mapToken :: "'f libm \<Rightarrow> (string \<times> ('f State \<Rightarrow> exn + 'f State)) list" where
  "mapToken L =
     [(''//'', on_line_comment),
      (''/*'', on_block_comment),
      (''{'', on_object_begin),
      ('':'', on_colon),
      (''}'', on_object_end),
      (''['', on_array_begin),
      ('']'', on_array_end),
      ('','', on_comma),
      (''true'', setValue (JBool True)),
      (''false'', setValue (JBool False)),
      (''null'', setValue JNull),
      ([DQ], on_string L)]"

text \<open>Any other token is taken for a number. \<open>None\<close> is an exception of \<^verbatim>\<open>stod\<close>, which
  the loop turns into a \<^verbatim>\<open>ParseException\<close>.\<close>

definition number_value :: "'f libm \<Rightarrow> string \<Rightarrow> 'f JsonT option" where
  "number_value L sToken =
     (case (if is_integer_token sToken then stoll sToken else None) of
        Some n \<Rightarrow> Some (JInt n)
      | None \<Rightarrow> (case stod L sToken of None \<Rightarrow> None | Some d \<Rightarrow> Some (JFloat d)))"

subsection \<open>The loop\<close>

text \<open>One pass through the body of \<^verbatim>\<open>while (true)\<close>: it throws, leaves the loop
  (\<^verbatim>\<open>break\<close>) or goes round again.\<close>

datatype 'f iter = Throw exn | Break | Continue "'f State"

definition get_token :: "'f State \<Rightarrow> string \<times> 'f State" where
  "get_token st =
     (case regex_token (flags st) (line st) of
        Some (tok, r) \<Rightarrow> (tok, st\<lparr>it := r @ itLineEnd st\<rparr>)
      | None \<Rightarrow> ([], st))"

definition run_handler :: "exn + 'f State \<Rightarrow> 'f iter" where
  "run_handler r = (case r of Inl e \<Rightarrow> Throw e | Inr st \<Rightarrow> Continue st)"

definition parse_iter :: "'f libm \<Rightarrow> 'f State \<Rightarrow> 'f iter" where
  "parse_iter L st =
     (if flags st = flags0 then Throw (ParseException (position st))
      else if parents st = [] then Throw (ParseException (position st))
      else if it st = [] then
        (if \<not> bFinish (flags st) then Throw (ParseException (position st)) else Break)
      else
        (let st1 = st\<lparr>itLineEnd := line_end (it st)\<rparr>
         in if \<not> list_ex (\<lambda>c. \<not> isspace c) (line st1) then Continue (st1\<lparr>it := itLineEnd st1\<rparr>)
            else
              (case get_token st1 of
                 (sToken, st2) \<Rightarrow>
                   (case map_of (mapToken L) sToken of
                      Some handler \<Rightarrow> run_handler (handler st2)
                    | None \<Rightarrow>
                        (case number_value L sToken of
                           None \<Rightarrow> Throw (ParseException (position st2))
                         | Some v \<Rightarrow> run_handler (setValue v st2))))))"


subsection \<open>The loop terminates: every pass that goes round again has moved the iterator\<close>

lemma line_end_length: "length (line_end s) \<le> length s"
proof -
  have le: "length (dropWhile (\<lambda>c. c \<noteq> LF) s) \<le> length s"
    by (rule length_dropWhile_le)
  show ?thesis
  proof (cases "dropWhile (\<lambda>c. c \<noteq> LF) s")
    case Nil
    show ?thesis unfolding line_end_def Nil by simp
  next
    case (Cons c r)
    show ?thesis using le unfolding line_end_def Cons by simp
  qed
qed

lemma line_end_shorter: "s \<noteq> [] \<Longrightarrow> length (line_end s) < length s"
proof -
  assume ne: "s \<noteq> []"
  have le: "length (dropWhile (\<lambda>c. c \<noteq> LF) s) \<le> length s"
    by (rule length_dropWhile_le)
  show ?thesis
  proof (cases "dropWhile (\<lambda>c. c \<noteq> LF) s")
    case Nil
    show ?thesis unfolding line_end_def Nil using ne by simp
  next
    case (Cons c r)
    show ?thesis using le unfolding line_end_def Cons by simp
  qed
qed

lemma block_end_length: "block_end s = Some r \<Longrightarrow> length r \<le> length s"
  by (induction s) (auto split: if_splits)




lemma match_number_nonempty: "match_number s = Some tok \<Longrightarrow> tok \<noteq> []"
  by (auto simp: match_number_def Let_def split: if_splits)

lemma match_alt_nonempty: "match_alt a s = Some tok \<Longrightarrow> a \<noteq> Lit [] \<Longrightarrow> tok \<noteq> []"
  by (cases a) (auto dest: match_number_nonempty split: if_splits list.splits)

lemma first_alt_nonempty: "first_alt as s = Some tok \<Longrightarrow> Lit [] \<notin> set as \<Longrightarrow> tok \<noteq> []"
  by (induction as) (auto dest: match_alt_nonempty split: option.splits)

lemma token_alts_no_empty: "Lit [] \<notin> set (token_alts f)"
  by (simp add: token_alts_def)

lemma match_alt_Nil: "match_alt a [] = Some tok \<Longrightarrow> tok = []"
  by (cases a) (auto simp: starts_with_def match_number_def split: if_splits)

lemma first_alt_Nil: "first_alt as [] = Some tok \<Longrightarrow> tok = []"
  by (induction as) (auto dest: match_alt_Nil split: option.splits)

lemma regex_token_shorter:
  assumes "regex_token f s = Some (tok, r)"
  shows "tok \<noteq> [] \<and> length r < length s"
proof -
  define t where "t = dropWhile isspace s"
  from assms have fa: "first_alt (token_alts f) t = Some tok" and r: "r = drop (length tok) t"
    by (auto simp: regex_token_def t_def Let_def split: option.splits)
  have ne: "tok \<noteq> []"
    using first_alt_nonempty[OF fa token_alts_no_empty] .
  have "t \<noteq> []"
    using first_alt_Nil fa ne by blast
  then have "length r < length t"
    using ne r by (cases tok) auto
  moreover have "length t \<le> length s"
    unfolding t_def by (rule length_dropWhile_le)
  ultimately show ?thesis using ne by simp
qed

lemma decode_string_length:
  "decode_string L res s = Inr (t, r) \<Longrightarrow> length r \<le> length s"
proof (induction L res s rule: decode_string.induct)
  case (1 L res s)
  show ?case
  proof (cases "regex_string s")
    case None
    with "1.prems" show ?thesis by (simp add: decode_string.simps)
  next
    case (Some x)
    obtain pre tok rest where x: "x = (pre, tok, rest)" by (cases x) auto
    note rs = Some[unfolded x]
    have sh: "length rest < length s" using regex_string_shorter[OF rs] .
    show ?thesis
    proof (cases "tok = [DQ]")
      case True
      with "1.prems" rs sh show ?thesis by (simp add: decode_string.simps)
    next
      case ndq: False
      show ?thesis
      proof (cases "map_of mapReplace tok")
        case (Some rp)
        with "1.prems" rs ndq have "decode_string L (res @ pre @ rp) rest = Inr (t, r)"
          by (simp add: decode_string.simps)
        from "1.IH"(2)[OF rs refl refl ndq Some this] sh show ?thesis by simp
      next
        case None
        show ?thesis
        proof (cases "to_bytes L (takeWhile (\<lambda>u. u \<noteq> 0) (code_units tok))")
          case nb: None
          with "1.prems" rs ndq None show ?thesis by (simp add: decode_string.simps)
        next
          case (Some su8)
          with "1.prems" rs ndq None have "decode_string L (res @ pre @ su8) rest = Inr (t, r)"
            by (simp add: decode_string.simps)
          from "1.IH"(1)[OF rs refl refl ndq None Some this] sh show ?thesis by simp
        qed
      qed
    qed
  qed
qed


lemma line_length: "length (line st) \<le> length (it st) - length (itLineEnd st)"
  by (simp add: line_def)

lemma setValue_it: "setValue v st = Inr st' \<Longrightarrow> it st' = it st"
  by (auto simp: setValue_def Let_def throw_def split: if_splits)

lemma setEnd_it: "setEnd st = Inr st' \<Longrightarrow> it st' = it st"
  by (auto simp: setEnd_def Let_def throw_def split: if_splits)

lemma on_begin_it: "on_begin e fl st = Inr st' \<Longrightarrow> it st' = it st"
  by (auto simp: on_begin_def Let_def throw_def split: if_splits)

lemma on_string_it:
  assumes "on_string L st = Inr st'" and "length (itLineEnd st) \<le> length (it st)"
  shows "length (it st') \<le> length (it st)"
proof (cases "decode_string L [] (line st)")
  case (Inl a)
  with assms show ?thesis by (simp add: on_string_def throw_def)
next
  case (Inr b)
  obtain sText r where b: "b = (sText, r)" by (cases b) auto
  note d = Inr[unfolded b]
  have "length r \<le> length (line st)" using decode_string_length[OF d] .
  with line_length[of st] assms(2) have len: "length (r @ itLineEnd st) \<le> length (it st)"
    by simp
  show ?thesis
  proof (cases "objectKey (flags st) = 1")
    case True
    with assms(1) d have "it st' = r @ itLineEnd st"
      by (auto simp: on_string_def Let_def)
    with len show ?thesis by simp
  next
    case False
    with assms(1) d have "setValue (JString sText) (st\<lparr>it := r @ itLineEnd st\<rparr>) = Inr st'"
      by (auto simp: on_string_def Let_def)
    from setValue_it[OF this] len show ?thesis by simp
  qed
qed

lemma handler_it:
  assumes "map_of (mapToken L) tok = Some h" and "h st = Inr st'"
    and "length (itLineEnd st) \<le> length (it st)"
  shows "length (it st') \<le> length (it st)"
proof -
  from assms(1) have "h \<in> {on_line_comment, on_block_comment, on_object_begin, on_colon,
      on_object_end, on_array_begin, on_array_end, on_comma, setValue (JBool True),
      setValue (JBool False), setValue JNull, on_string L}"
    by (auto simp: mapToken_def split: if_splits)
  then consider "h = on_line_comment" | "h = on_block_comment" | "h = on_object_begin"
    | "h = on_colon" | "h = on_object_end" | "h = on_array_begin" | "h = on_array_end"
    | "h = on_comma" | "\<exists>v. h = setValue v" | "h = on_string L"
    by auto
  then show ?thesis
  proof cases
    case 1
    with assms(2) line_end_length[of "it st"] show ?thesis
      by (auto simp: on_line_comment_def)
  next
    case 2
    with assms(2) show ?thesis
      by (auto simp: on_block_comment_def throw_def dest: block_end_length split: option.splits)
  next
    case 3
    with assms(2) show ?thesis by (auto simp: on_object_begin_def dest: on_begin_it)
  next
    case 4
    with assms(2) show ?thesis by (auto simp: on_colon_def)
  next
    case 5
    with assms(2) show ?thesis
      by (auto simp: on_object_end_def throw_def dest: setEnd_it split: if_splits)
  next
    case 6
    with assms(2) show ?thesis by (auto simp: on_array_begin_def dest: on_begin_it)
  next
    case 7
    with assms(2) show ?thesis
      by (auto simp: on_array_end_def throw_def dest: setEnd_it split: if_splits)
  next
    case 8
    with assms(2) show ?thesis by (auto simp: on_comma_def throw_def split: if_splits)
  next
    case 9
    with assms(2) show ?thesis by (auto dest: setValue_it)
  next
    case 10
    with assms(2,3) show ?thesis by (auto dest: on_string_it)
  qed
qed


lemma parse_iter_shorter:
  assumes "parse_iter L st = Continue st'"
  shows "length (it st') < length (it st)"
proof -
  from assms have ne: "it st \<noteq> []"
    by (auto simp: parse_iter_def split: if_splits)
  define st1 where "st1 = st\<lparr>itLineEnd := line_end (it st)\<rparr>"
  have le1: "length (itLineEnd st1) < length (it st1)"
    using line_end_shorter[OF ne] by (simp add: st1_def)
  show ?thesis
  proof (cases "list_ex (\<lambda>c. \<not> isspace c) (line st1)")
    case False
    with assms ne have "st' = st1\<lparr>it := itLineEnd st1\<rparr>"
      by (auto simp: parse_iter_def st1_def Let_def split: if_splits)
    with le1 show ?thesis by (simp add: st1_def)
  next
    case True
    obtain sToken st2 where gt: "get_token st1 = (sToken, st2)"
      by (cases "get_token st1") auto
    from assms ne True gt have body:
      "(case map_of (mapToken L) sToken of
          Some handler \<Rightarrow> run_handler (handler st2)
        | None \<Rightarrow> (case number_value L sToken of
                     None \<Rightarrow> Throw (ParseException (position st2))
                   | Some v \<Rightarrow> run_handler (setValue v st2))) = Continue st'"
      by (auto simp: parse_iter_def st1_def[symmetric] Let_def split: if_splits)
    show ?thesis
    proof (cases "regex_token (flags st1) (line st1)")
      case None
      with gt have "sToken = []" by (simp add: get_token_def)
      with body show ?thesis
        by (simp add: mapToken_def number_value_def is_integer_token_def starts_with_def
            stod_def strtod_converts_def)
    next
      case (Some x)
      obtain tok r where x: "x = (tok, r)" by (cases x) auto
      note rt = Some[unfolded x]
      from rt gt have st2: "st2 = st1\<lparr>it := r @ itLineEnd st1\<rparr>" and tk: "sToken = tok"
        by (auto simp: get_token_def)
      from regex_token_shorter[OF rt] line_length[of st1] le1
      have lt2: "length (it st2) < length (it st1)" and ile2: "length (itLineEnd st2) \<le> length (it st2)"
        by (auto simp: st2)
      have "length (it st') \<le> length (it st2)"
      proof (cases "map_of (mapToken L) sToken")
        case (Some h)
        with body have "h st2 = Inr st'"
          by (auto simp: run_handler_def split: sum.splits)
        from handler_it[OF Some this ile2] show ?thesis .
      next
        case None
        with body obtain v where "setValue v st2 = Inr st'"
          by (auto simp: run_handler_def split: option.splits sum.splits)
        from setValue_it[OF this] show ?thesis by simp
      qed
      with lt2 show ?thesis by (simp add: st1_def)
    qed
  qed
qed

function parse_loop :: "'f libm \<Rightarrow> 'f State \<Rightarrow> exn + 'f JsonT" where
  "parse_loop L st =
     (case parse_iter L st of
        Throw e \<Rightarrow> Inl e
      | Break \<Rightarrow> Inr (result st)
      | Continue st' \<Rightarrow> parse_loop L st')"
  by pat_completeness auto
termination
  by (relation "measure (\<lambda>(L, st). length (it st))") (auto dest: parse_iter_shorter)

declare parse_loop.simps [simp del]

text \<open>\<^verbatim>\<open>ParseOptions\<close>; its constructor sets \<^verbatim>\<open>comment\<close> to true. The body of \<^verbatim>\<open>parse\<close> does
  not read \<^verbatim>\<open>opt\<close>.\<close>

record ParseOptions =
  comment :: bool

definition ParseOptions_init :: ParseOptions where
  "ParseOptions_init = \<lparr>comment = True\<rparr>"

definition parse :: "'f libm \<Rightarrow> string \<Rightarrow> ParseOptions \<Rightarrow> exn + 'f JsonT" where
  "parse L sJson opt = parse_loop L (State_init sJson)"

section \<open>JSON Pointer\<close>

text \<open>\<^verbatim>\<open>sregex_token_iterator(s.cbegin(), s.cend(), re, -1)\<close> with \<^verbatim>\<open>re = "/"\<close>: the texts
  between the slashes, and the text behind the last slash when it is not empty.\<close>

fun split_slash :: "string \<Rightarrow> string list" where
  "split_slash [] = [[]]"
| "split_slash (c # s) =
     (if c = CHR ''/'' then [] # split_slash s
      else (case split_slash s of [] \<Rightarrow> [[c]] | t # ts \<Rightarrow> (c # t) # ts))"

definition token_iterator :: "string \<Rightarrow> string list" where
  "token_iterator s = (let ps = split_slash s in if last ps = [] then butlast ps else ps)"

text \<open>The table of replacements applied to a token that is not all digits.\<close>

definition pointer_tbl :: "(string \<times> string) list" where
  "pointer_tbl =
     [(''~0'', ''~''),
      (''~1'', ''/''),
      ([CR], [BSL, CHR ''r'']),
      ([TAB], [BSL, CHR ''t'']),
      ([BS], [BSL, CHR ''b''])]"

text \<open>\<^verbatim>\<open>^[0-9]+$\<close> decides between the two ways a token is written into the JSON text.\<close>

definition encode_token :: "string \<Rightarrow> string" where
  "encode_token s =
     (if s \<noteq> [] \<and> list_all isdigit s then s @ '',''
      else [DQ] @ foldl (\<lambda>result (re, dst). replace_all re dst result) s pointer_tbl @ [DQ] @ '','')"

definition pointer_json :: "string \<Rightarrow> string" where
  "pointer_json text =
     butlast (''['' @ concat (map encode_token (token_iterator (text @ ''/'')))) @ '']''"

text \<open>The tokens of a pointer: the array \<^verbatim>\<open>parse\<close> makes of that text, its first element
  cleared when it is the empty string. \<^verbatim>\<open>v[0]\<close> on an empty vector has no defined
  behaviour.\<close>

definition pointer_tokens :: "'f libm \<Rightarrow> string \<Rightarrow> exn + 'f JsonT list" where
  "pointer_tokens L text =
     (if text = [] then Inr []
      else case parse L (pointer_json text) ParseOptions_init of
             Inl e \<Rightarrow> Inl e
           | Inr js \<Rightarrow>
               (case get_Array (ensureArray js) of
                  [] \<Rightarrow> Inl undefined_behaviour
                | v0 # vs \<Rightarrow>
                    Inr ((if type v0 = TypeString \<and> get_string v0 = [] then clear v0 else v0) # vs)))"

text \<open>The walk along the tokens. \<^verbatim>\<open>j.get<int>()\<close> is a 32-bit \<^verbatim>\<open>int\<close>, converted to the
  64-bit \<^verbatim>\<open>size_t\<close> parameter of \<^verbatim>\<open>at\<close> (sign extension). The value returned stands for
  the reference \<^verbatim>\<open>*p\<close>.\<close>

definition int_to_size_t :: "32 word \<Rightarrow> nat" where
  "int_to_size_t i = unat (scast i :: 64 word)"

fun walk :: "'f libm \<Rightarrow> 'f JsonT \<Rightarrow> 'f JsonT list \<Rightarrow> exn + 'f JsonT" where
  "walk L p [] = Inr p"
| "walk L p (j # js) =
     (if type j = TypeInt then
        (case at_index p (int_to_size_t (get_integer L j)) of
           Inl e \<Rightarrow> Inl e
         | Inr r \<Rightarrow> walk L (deref p r) js)
      else if type j = TypeString then
        (case at_key p (get_string j) of
           Inl e \<Rightarrow> Inl e
         | Inr r \<Rightarrow> walk L (deref p r) js)
      else Inl out_of_range)"

definition at_pointer :: "'f libm \<Rightarrow> 'f JsonT \<Rightarrow> string \<Rightarrow> exn + 'f JsonT" where
  "at_pointer L this text =
     (case pointer_tokens L text of
        Inl e \<Rightarrow> Inl e
      | Inr tokens \<Rightarrow>
          if tokens = [] then Inr this
          else if \<not> isNull (hd tokens) then Inl out_of_range
          else walk L this (tl tokens))"

text \<open>\<^verbatim>\<open>operator[](const Pointer&) const\<close> catches \<^verbatim>\<open>std::out_of_range\<close> and nothing else;
  it then returns \<^verbatim>\<open>m_emptyJson\<close>, a Null value.\<close>

definition subscript_pointer :: "'f libm \<Rightarrow> 'f JsonT \<Rightarrow> string \<Rightarrow> exn + 'f JsonT" where
  "subscript_pointer L this text =
     (case at_pointer L this text of
        Inl out_of_range \<Rightarrow> Inr JNull
      | r \<Rightarrow> r)"

section \<open>A library for closed statements\<close>

text \<open>The theorems below hold for every library \<open>L\<close>. Where a statement has to be closed,
  \<open>L\<close> is \<open>L0\<close>: the library that tells no two doubles apart (every double is \<open>()\<close>), never
  reports a range error and converts no \<^verbatim>\<open>\u\<close> escape. It is only used on inputs whose
  evaluation calls none of its functions, or only to see that a value is a Float.\<close>

definition L0 :: "unit libm" where
  "L0 = \<lparr>strtod_value = (\<lambda>s. Some ()), to_string_d = (\<lambda>f. ''0.000000''), itod = (\<lambda>i. ()),
     llroundl = (\<lambda>f. 0), zero_d = (), to_bytes = (\<lambda>u. None)\<rparr>"

section \<open>Evaluating parse, stringify and the pointer functions on a given input\<close>

lemmas parse_eval =
  parse_def State_init_def parse_loop.simps parse_iter_def get_token_def run_handler_def
  regex_token_def token_alts_def match_number_def match_fraction_def match_exponent_def
  starts_with_def line_def line_end_def position_def throw_def flags0_def
  mapToken_def number_value_def is_integer_token_def stoll_def stod_def strtod_converts_def
  dec_val_def digit_val_def isspace_def isdigit_def
  setValue_def setEnd_def on_begin_def on_object_begin_def on_array_begin_def on_colon_def
  on_object_end_def on_array_end_def on_comma_def on_string_def on_line_comment_def
  on_block_comment_def decode_string.simps match_esc_def is_surrogate_pair_def is_u_escape_def
  mapReplace_def isxdigit_def
  isType_def isNull_def ensureMap_def ensureArray_def clear_def index_assign_def
  subscript_index_def subscript_key_def resize_def map_subscript_def map_find_def
  Let_def

lemmas stringify_eval =
  fEscape_def fEscape_tbl_def replace_all.simps starts_with_def pop_back_if_def
  to_string_i_def dec.simps digit_char_def

lemmas pointer_eval =
  at_pointer_def subscript_pointer_def pointer_tokens_def pointer_json_def token_iterator_def
  encode_token_def pointer_tbl_def replace_all.simps ParseOptions_init_def
  at_index_def at_key_def int_to_size_t_def

section \<open>Pointers into the tree: reading and writing through them\<close>

fun has_child :: "'f JsonT \<Rightarrow> ref \<Rightarrow> bool" where
  "has_child (JMap m) (MapElem k) = (map_of m k \<noteq> None)"
| "has_child (JArray a) (ArrayElem i) = (i < length a)"
| "has_child _ _ = False"

primrec valid_ptr :: "'f JsonT \<Rightarrow> ptr \<Rightarrow> bool" where
  "valid_ptr j [] = True"
| "valid_ptr j (r # p) = (has_child j r \<and> valid_ptr (deref j r) p)"

lemma map_assign_find: "map_of m k \<noteq> None \<Longrightarrow> map_of (map_assign k x m) k = Some x"
  by (induction m) auto

lemma map_assign_twice: "map_assign k y (map_assign k x m) = map_assign k y m"
  by (induction m) auto

lemma map_assign_absent: "map_of m k = None \<Longrightarrow> map_assign k x m = m"
  by (induction m) (auto split: if_splits)

lemma deref_assign_ref: "has_child j r \<Longrightarrow> deref (assign_ref j r x) r = x"
  by (cases j; cases r) (auto simp: map_find_def map_assign_find)

lemma assign_ref_twice: "assign_ref (assign_ref j r x) r y = assign_ref j r y"
  by (cases j; cases r) (auto simp: map_assign_twice)

lemma assign_ref_no_child: "\<not> has_child j r \<Longrightarrow> assign_ref j r x = j"
  by (cases j; cases r) (auto simp: map_assign_absent)

lemma map_assign_dom: "(map_of (map_assign k x m) k' = None) = (map_of m k' = None)"
  by (induction m) (auto split: if_splits)

lemma has_child_assign_ref: "has_child (assign_ref j r x) r = has_child j r"
  by (cases j; cases r) (auto simp: map_assign_dom)

lemma type_assign_ref: "type (assign_ref j r x) = type j"
  by (cases j; cases r) auto

lemma modify_at_compose: "modify_at p f (modify_at p g j) = modify_at p (\<lambda>x. f (g x)) j"
proof (induction p arbitrary: j)
  case Nil
  show ?case by simp
next
  case (Cons r p)
  show ?case
  proof (cases "has_child j r")
    case True
    then show ?thesis
      by (simp add: deref_assign_ref assign_ref_twice Cons.IH)
  next
    case False
    then show ?thesis by (simp add: assign_ref_no_child)
  qed
qed

lemma modify_at_append: "modify_at (p @ q) f j = modify_at p (modify_at q f) j"
  by (induction p arbitrary: j) auto

lemma get_at_append: "get_at j (p @ q) = get_at (get_at j p) q"
  by (induction p arbitrary: j) auto

lemma valid_ptr_append: "valid_ptr j (p @ q) = (valid_ptr j p \<and> valid_ptr (get_at j p) q)"
  by (induction p arbitrary: j) auto

lemma modify_at_const: "modify_at p f j = modify_at p (\<lambda>x. f (get_at j p)) j"
  by (induction p arbitrary: j) auto

lemma get_at_modify_at: "valid_ptr j p \<Longrightarrow> get_at (modify_at p f j) p = f (get_at j p)"
  by (induction p arbitrary: j) (auto simp: deref_assign_ref)

lemma valid_ptr_modify_at: "valid_ptr j p \<Longrightarrow> valid_ptr (modify_at p f j) p"
  by (induction p arbitrary: j) (auto simp: deref_assign_ref has_child_assign_ref)

lemma modify_at_cong_at:
  "f (get_at j p) = g (get_at j p) \<Longrightarrow> modify_at p f j = modify_at p g j"
  using modify_at_const[of p f j] modify_at_const[of p g j] by simp

section \<open>One pass of the loop on a text without line feeds\<close>

abbreviation mk :: "string \<Rightarrow> 'f JsonT \<Rightarrow> Flags \<Rightarrow> ptr list \<Rightarrow> string \<Rightarrow> string \<Rightarrow> 'f State" where
  "mk J R F P I E \<equiv> \<lparr>json = J, result = R, flags = F, parents = P, it = I, itLineEnd = E\<rparr>"

lemma line_end_no_LF: "LF \<notin> set s \<Longrightarrow> line_end s = []"
proof -
  assume "LF \<notin> set s"
  then have d: "dropWhile (\<lambda>c. c \<noteq> LF) s = []" by auto
  show ?thesis unfolding line_end_def d by simp
qed

lemma iter_token_aux:
  assumes F: "F \<noteq> flags0" and P: "P \<noteq> []"
    and ne: "txt \<noteq> []"
    and le: "line_end txt = []"
    and ex: "list_ex (\<lambda>c. \<not> isspace c) txt"
    and rt: "regex_token F txt = Some (tok, rest)"
  shows "parse_iter L (mk J R F P txt E) =
     (case map_of (mapToken L) tok of
        Some h \<Rightarrow> run_handler (h (mk J R F P rest []))
      | None \<Rightarrow>
          (case number_value L tok of
             None \<Rightarrow> Throw (ParseException (length J - length rest))
           | Some v \<Rightarrow> run_handler (setValue v (mk J R F P rest []))))"
  unfolding parse_iter_def
  by (simp add: F P ne le line_def ex get_token_def rt position_def Let_def
      split: option.splits)

lemma iter_token:
  assumes F: "F \<noteq> flags0" and P: "P \<noteq> []"
    and nl: "LF \<notin> set (tok @ rest)"
    and tok: "tok \<noteq> []" "\<not> isspace (hd tok)"
    and fa: "first_alt (token_alts F) (tok @ rest) = Some tok"
  shows "parse_iter L (mk J R F P (tok @ rest) E) =
     (case map_of (mapToken L) tok of
        Some h \<Rightarrow> run_handler (h (mk J R F P rest []))
      | None \<Rightarrow>
          (case number_value L tok of
             None \<Rightarrow> Throw (ParseException (length J - length rest))
           | Some v \<Rightarrow> run_handler (setValue v (mk J R F P rest []))))"
proof -
  have le: "line_end (tok @ rest) = []"
    using nl by (rule line_end_no_LF)
  have dw: "dropWhile isspace (tok @ rest) = tok @ rest"
    using tok by (cases tok) auto
  have ex: "list_ex (\<lambda>c. \<not> isspace c) (tok @ rest)"
    using tok by (cases tok) auto
  have rt: "regex_token F (tok @ rest) = Some (tok, rest)"
    by (simp add: regex_token_def dw fa)
  have ne: "tok @ rest \<noteq> []" using tok by simp
  show ?thesis
    by (rule iter_token_aux[OF F P ne le ex rt])
qed

lemma loop_step: "parse_iter L st = Continue st' \<Longrightarrow> parse_loop L st = parse_loop L st'"
  by (simp add: parse_loop.simps)

lemma loop_itLineEnd: "parse_loop L (mk J R F P I E) = parse_loop L (mk J R F P I [])"
proof -
  have "parse_iter L (mk J R F P I E) = parse_iter L (mk J R F P I [])"
    by (simp add: parse_iter_def position_def)
  then show ?thesis
    by (simp add: parse_loop.simps[of L "mk J R F P I E"] parse_loop.simps[of L "mk J R F P I []"]
        split: iter.splits)
qed

section \<open>A value in its place\<close>

definition vflags :: "nat \<Rightarrow> nat \<Rightarrow> Flags" where
  "vflags k e = \<lparr>bFinish = False, bBegin = True, end_f = e, objectKey = 0, value_f = k\<rparr>"

definition value_ctx :: "nat \<Rightarrow> 'f JsonT \<Rightarrow> ptr list \<Rightarrow> bool" where
  "value_ctx k R P =
     (if k = 1 then
        (\<exists>q c qs. P = (q @ [c]) # q # qs \<and> valid_ptr R (q @ [c]) \<and> get_at R (q @ [c]) = JNull
           \<and> type (get_at R q) = TypeMap)
      else if k = 2 then P \<noteq> [] \<and> valid_ptr R (hd P) \<and> type (get_at R (hd P)) = TypeArray
      else k = 3 \<and> (\<exists>top. P = [top] \<and> valid_ptr R top \<and> get_at R top = JNull))"

definition place :: "nat \<Rightarrow> 'f JsonT \<Rightarrow> ptr list \<Rightarrow> 'f JsonT \<Rightarrow> 'f JsonT" where
  "place k R P v = modify_at (hd P) (\<lambda>p. if k = 2 then JArray (get_Array p @ [v]) else v) R"

definition done_flags :: "nat \<Rightarrow> Flags" where
  "done_flags k =
     (if k = 1 then flags0\<lparr>end_f := 2\<rparr>
      else if k = 2 then flags0\<lparr>end_f := 4\<rparr>
      else flags0\<lparr>bFinish := True\<rparr>)"

definition done_parents :: "nat \<Rightarrow> ptr list \<Rightarrow> ptr list" where
  "done_parents k P = (if k = 1 then tl P else P)"

definition ok_rest :: "string \<Rightarrow> bool" where
  "ok_rest rest = (LF \<notin> set rest \<and> (rest = [] \<or> hd rest \<in> set '',]}''))"

definition parses_to :: "'f libm \<Rightarrow> string \<Rightarrow> 'f JsonT \<Rightarrow> bool" where
  "parses_to L txt v =
     (LF \<notin> set txt \<and>
      (\<forall>J R P rest E k e. value_ctx k R P \<longrightarrow> e \<in> {0, 3} \<longrightarrow> ok_rest rest \<longrightarrow>
          parse_loop L (mk J R (vflags k e) P (txt @ rest) E) =
          parse_loop L (mk J (place k R P v) (done_flags k) (done_parents k P) rest [])))"

lemma value_ctx_cases: "value_ctx k R P \<Longrightarrow> k = 1 \<or> k = 2 \<or> k = 3"
  by (auto simp: value_ctx_def split: if_splits)

lemma value_ctx_parents: "value_ctx k R P \<Longrightarrow> P \<noteq> []"
  by (auto simp: value_ctx_def split: if_splits)

lemma index_assign_append: "type p = TypeArray \<Longrightarrow> index_assign p (length (get_Array p)) v = JArray (get_Array p @ [v])"
  by (cases p) (auto simp: index_assign_def subscript_index_def ensureArray_def resize_def Let_def)

lemma setValue_place:
  assumes "value_ctx k R P"
  shows "setValue v (mk J R (vflags k e) P I E) =
         Inr (mk J (place k R P v) (done_flags k) (done_parents k P) I E)"
proof -
  from value_ctx_cases[OF assms] consider "k = 1" | "k = 2" | "k = 3" by auto
  then show ?thesis
  proof cases
    case 1
    then show ?thesis
      by (simp add: setValue_def vflags_def place_def done_flags_def done_parents_def Let_def)
  next
    case 2
    with assms have ty: "type (get_at R (hd P)) = TypeArray"
      by (simp add: value_ctx_def)
    have "modify_at (hd P) (\<lambda>p. index_assign p (length (get_Array p)) v) R
        = modify_at (hd P) (\<lambda>p. JArray (get_Array p @ [v])) R"
      by (rule modify_at_cong_at) (simp add: index_assign_append ty)
    with 2 ty show ?thesis
      by (simp add: setValue_def vflags_def place_def done_flags_def done_parents_def Let_def
          isType_def)
  next
    case 3
    then show ?thesis
      by (simp add: setValue_def vflags_def place_def done_flags_def done_parents_def Let_def)
  qed
qed

lemma vflags_not_flags0: "vflags k e \<noteq> flags0"
  by (simp add: vflags_def flags0_def)

text \<open>The token expression in a state that expects a value.\<close>

lemma first_alt_keyword:
  assumes "k \<noteq> 0" "e \<in> {0, 3}" "kw \<in> {''true'', ''false'', ''null''}"
  shows "first_alt (token_alts (vflags k e)) (kw @ rest) = Some kw"
proof -
  from assms(2) consider "e = 0" | "e = 3" by auto
  then show ?thesis
  proof cases
    case 1
    with assms(1,3) show ?thesis
      by (elim insertE emptyE) (simp_all add: token_alts_def vflags_def starts_with_def)
  next
    case 2
    with assms(1,3) show ?thesis
      by (elim insertE emptyE) (simp_all add: token_alts_def vflags_def starts_with_def)
  qed
qed

lemma scalar_parses_to:
  assumes kw: "kw \<in> {''true'', ''false'', ''null''}"
    and h: "map_of (mapToken (L :: 'f libm)) kw = Some (setValue (v :: 'f JsonT))"
  shows "parses_to L kw v"
  unfolding parses_to_def
proof (intro conjI allI impI)
  show "LF \<notin> set kw" using kw by auto
next
  fix J and R :: "'f JsonT" and P rest E k e
  assume ctx: "value_ctx k R P" and e: "e \<in> {0::nat, 3}" and rest: "ok_rest rest"
  have k: "k \<noteq> 0" using value_ctx_cases[OF ctx] by auto
  have nl: "LF \<notin> set (kw @ rest)" using kw rest by (auto simp: ok_rest_def)
  have tk: "kw \<noteq> []" "\<not> isspace (hd kw)" using kw by (auto simp: isspace_def)
  have "parse_iter L (mk J R (vflags k e) P (kw @ rest) E) =
        run_handler (setValue v (mk J R (vflags k e) P rest []))"
    using iter_token[OF vflags_not_flags0 value_ctx_parents[OF ctx] nl tk
        first_alt_keyword[OF k e kw], of L J R E] h
    by simp
  then have "parse_iter L (mk J R (vflags k e) P (kw @ rest) E) =
        Continue (mk J (place k R P v) (done_flags k) (done_parents k P) rest [])"
    by (simp add: setValue_place[OF ctx] run_handler_def)
  then show "parse_loop L (mk J R (vflags k e) P (kw @ rest) E) =
        parse_loop L (mk J (place k R P v) (done_flags k) (done_parents k P) rest [])"
    by (rule loop_step)
qed

lemma parses_to_null: "parses_to L ''null'' JNull"
  by (rule scalar_parses_to) (simp_all add: mapToken_def)

lemma parses_to_true: "parses_to L ''true'' (JBool True)"
  by (rule scalar_parses_to) (simp_all add: mapToken_def)

lemma parses_to_false: "parses_to L ''false'' (JBool False)"
  by (rule scalar_parses_to) (simp_all add: mapToken_def)

section \<open>Number tokens\<close>

text \<open>The shape of the text the number expression matches: a sign, digits, a fraction
  and an exponent.\<close>

definition is_sign :: "string \<Rightarrow> bool" where
  "is_sign sg = (sg = [] \<or> sg = ''-'')"

definition is_digits :: "string \<Rightarrow> bool" where
  "is_digits ds = (ds \<noteq> [] \<and> list_all isdigit ds)"

definition is_fraction :: "string \<Rightarrow> bool" where
  "is_fraction fr = (fr = [] \<or> (hd fr = CHR ''.'' \<and> list_all isdigit (tl fr)))"

definition is_exponent :: "string \<Rightarrow> bool" where
  "is_exponent ex =
     (ex = [] \<or>
      ((hd ex = CHR ''e'' \<or> hd ex = CHR ''E'') \<and>
       is_digits (if starts_with ''+'' (tl ex) \<or> starts_with ''-'' (tl ex) then tl (tl ex) else tl ex)))"

definition num_delim :: "string \<Rightarrow> bool" where
  "num_delim rest =
     (rest = [] \<or> (\<not> isdigit (hd rest) \<and> hd rest \<noteq> CHR ''.'' \<and> hd rest \<noteq> CHR ''e'' \<and> hd rest \<noteq> CHR ''E''))"

lemma isdigit_not:
  assumes "isdigit c"
  shows "c \<noteq> CHR ''.''" "c \<noteq> CHR ''e''" "c \<noteq> CHR ''E''" "c \<noteq> CHR ''-''" "c \<noteq> CHR ''+''"
    "c \<noteq> CHR ''/''" "c \<noteq> CHR ''{''" "c \<noteq> CHR ''}''" "c \<noteq> CHR ''[''" "c \<noteq> CHR '']''"
    "c \<noteq> CHR '':''" "c \<noteq> CHR '',''" "c \<noteq> DQ" "c \<noteq> CHR ''t''" "c \<noteq> CHR ''f''"
    "c \<noteq> CHR ''n''" "c \<noteq> LF" "\<not> isspace c"
  using assms by (auto simp: isdigit_def isspace_def)

lemma takeWhile_digits:
  assumes "list_all isdigit ds" "r = [] \<or> \<not> isdigit (hd r)"
  shows "takeWhile isdigit (ds @ r) = ds"
proof -
  have "takeWhile isdigit r = []" using assms(2) by (cases r) auto
  moreover have "\<forall>x \<in> set ds. isdigit x" using assms(1) by (simp add: list_all_iff)
  ultimately show ?thesis by simp
qed

lemma match_fraction_exact:
  assumes "is_fraction fr" "r = [] \<or> (\<not> isdigit (hd r) \<and> hd r \<noteq> CHR ''.'')"
  shows "match_fraction (fr @ r) = fr"
proof (cases fr)
  case Nil
  with assms(2) show ?thesis by (cases r) (auto simp: match_fraction_def)
next
  case (Cons c fs)
  with assms(1) have c: "c = CHR ''.''" and fs: "list_all isdigit fs"
    by (auto simp: is_fraction_def)
  have "takeWhile isdigit (fs @ r) = fs"
    using assms(2) by (intro takeWhile_digits[OF fs]) auto
  with Cons c show ?thesis by (simp add: match_fraction_def)
qed

lemma match_exponent_exact:
  assumes "is_exponent ex" "r = [] \<or> (\<not> isdigit (hd r) \<and> hd r \<noteq> CHR ''e'' \<and> hd r \<noteq> CHR ''E'')"
  shows "match_exponent (ex @ r) = ex"
proof (cases ex)
  case Nil
  with assms(2) show ?thesis by (cases r) (auto simp: match_exponent_def)
next
  case (Cons c t)
  define sg where "sg = (if starts_with ''+'' t \<or> starts_with ''-'' t then take 1 t else [])"
  define es where "es = drop (length sg) t"
  from assms(1) Cons have c: "c = CHR ''e'' \<or> c = CHR ''E''"
    and d: "is_digits (if starts_with ''+'' t \<or> starts_with ''-'' t then tl t else t)"
    by (auto simp: is_exponent_def)
  have t: "t = sg @ es"
    unfolding es_def sg_def by (cases t) auto
  have es: "is_digits es"
    using d unfolding es_def sg_def by (cases t) (auto simp: starts_with_def)
  then obtain e1 where e1: "es \<noteq> []" "list_all isdigit es" "hd es = e1" "isdigit e1"
    by (cases es) (auto simp: is_digits_def)
  have tne: "t \<noteq> []" using t e1 by auto
  have sw: "(starts_with ''+'' (t @ r) \<or> starts_with ''-'' (t @ r)) = (starts_with ''+'' t \<or> starts_with ''-'' t)"
    using tne by (cases t) (auto simp: starts_with_def)
  have sg': "(if starts_with ''+'' (t @ r) \<or> starts_with ''-'' (t @ r) then take 1 (t @ r) else []) = sg"
    unfolding sw sg_def using tne by (cases t) auto
  have len: "length sg \<le> length t" by (simp add: sg_def)
  have dr: "drop (length sg) (t @ r) = es @ r"
    using len by (simp add: es_def)
  have tw: "takeWhile isdigit (es @ r) = es"
    using assms(2) by (intro takeWhile_digits[OF e1(2)]) auto
  have "match_exponent (c # (t @ r)) = c # sg @ es"
    unfolding match_exponent_def list.case Let_def sg' dr tw
    using c e1(1) by auto
  then show ?thesis
    unfolding Cons by (simp add: t)
qed

lemma match_number_exact:
  assumes sg: "is_sign sg" and ds: "is_digits ds" and fr: "is_fraction fr" and ex: "is_exponent ex"
    and r: "num_delim r"
  shows "match_number (sg @ ds @ fr @ ex @ r) = Some (sg @ ds @ fr @ ex)"
proof -
  from ds obtain d dt where dsc: "ds = d # dt" and d: "isdigit d" and dl: "list_all isdigit ds"
    by (cases ds) (auto simp: is_digits_def)
  have sw: "(if starts_with ''-'' (sg @ ds @ fr @ ex @ r) then ''-'' else []) = sg"
    using sg d by (auto simp: is_sign_def starts_with_def dsc dest: isdigit_not(4))
  have nd_ex: "ex @ r = [] \<or> (\<not> isdigit (hd (ex @ r)) \<and> hd (ex @ r) \<noteq> CHR ''.'')"
    using ex r by (cases ex) (auto simp: is_exponent_def num_delim_def isdigit_def)
  have nd_fr: "fr @ ex @ r = [] \<or> \<not> isdigit (hd (fr @ ex @ r))"
    using fr nd_ex by (cases fr) (auto simp: is_fraction_def isdigit_def)
  have tw: "takeWhile isdigit (ds @ fr @ ex @ r) = ds"
    by (rule takeWhile_digits[OF dl nd_fr])
  have mf: "match_fraction (fr @ ex @ r) = fr"
    by (rule match_fraction_exact[OF fr nd_ex])
  have me: "match_exponent (ex @ r) = ex"
    using r by (intro match_exponent_exact[OF ex]) (auto simp: num_delim_def)
  have a: "drop (length sg) (sg @ ds @ fr @ ex @ r) = ds @ fr @ ex @ r" by simp
  have b: "drop (length (sg @ ds)) (sg @ ds @ fr @ ex @ r) = fr @ ex @ r" by simp
  have c: "drop (length (sg @ ds @ fr)) (sg @ ds @ fr @ ex @ r) = ex @ r" by simp
  have dne: "ds \<noteq> []" using dsc by simp
  show ?thesis
    unfolding match_number_def Let_def sw a tw b mf c me
    using dne by simp
qed

lemma first_alt_append:
  "first_alt (as @ bs) s = (case first_alt as s of Some t \<Rightarrow> Some t | None \<Rightarrow> first_alt bs s)"
  by (induction as) (auto split: option.splits)

lemma first_alt_Lit_miss:
  assumes "\<forall>a \<in> set as. \<exists>l. a = Lit l \<and> l \<noteq> [] \<and> hd l \<noteq> c"
  shows "first_alt as (c # cs) = None"
  using assms
proof (induction as)
  case Nil
  show ?case by simp
next
  case (Cons a as)
  then obtain l where l: "a = Lit l" "l \<noteq> []" "hd l \<noteq> c" by auto
  then have "\<not> starts_with l (c # cs)"
    by (cases l) (auto simp: starts_with_def)
  with l Cons show ?case by simp
qed

definition struct_alts :: "Flags \<Rightarrow> alt list" where
  "struct_alts f =
     [Lit ''//'', Lit ''/*'']
     @ (if bBegin f then [Lit ''{'', Lit ''[''] else [])
     @ (if end_f f = 1 then [Lit ''}'']
        else if end_f f = 2 then [Lit ''}'', Lit '','']
        else if end_f f = 3 then [Lit '']'']
        else if end_f f = 4 then [Lit '']'', Lit '','']
        else [])
     @ (if objectKey f = 1 then [Lit [DQ]]
        else if objectKey f = 2 then [Lit '':'']
        else [])"

lemma token_alts_struct:
  "\<not> bFinish f \<Longrightarrow> token_alts f = struct_alts f
     @ (if value_f f \<noteq> 0 then [Lit [DQ], Lit ''true'', Lit ''false'', Lit ''null'', Number] else [])"
  by (simp add: token_alts_def struct_alts_def)

lemma struct_alts_miss:
  assumes "c \<notin> set ''/{}[],:''" "c \<noteq> DQ"
  shows "first_alt (struct_alts f) (c # cs) = None"
proof (rule first_alt_Lit_miss)
  show "\<forall>a\<in>set (struct_alts f). \<exists>l. a = Lit l \<and> l \<noteq> [] \<and> hd l \<noteq> c"
    using assms by (auto simp: struct_alts_def)
qed

lemma first_alt_number:
  assumes "\<not> bFinish f" "value_f f \<noteq> 0" "c \<notin> set ''/{}[],:tfn''" "c \<noteq> DQ"
  shows "first_alt (token_alts f) (c # cs) = match_number (c # cs)"
proof -
  have s: "first_alt (struct_alts f) (c # cs) = None"
    using assms by (intro struct_alts_miss) auto
  have k: "first_alt [Lit [DQ], Lit ''true'', Lit ''false'', Lit ''null''] (c # cs) = None"
    using assms by (intro first_alt_Lit_miss) auto
  have "first_alt [Lit [DQ], Lit ''true'', Lit ''false'', Lit ''null'', Number] (c # cs)
      = match_number (c # cs)"
    using k first_alt_append[of "[Lit [DQ], Lit ''true'', Lit ''false'', Lit ''null'']" "[Number]" "c # cs"]
    by (simp split: option.splits)
  then show ?thesis
    using assms(1,2) s by (simp add: token_alts_struct first_alt_append)
qed

lemma first_alt_quote_value:
  assumes "\<not> bFinish f" "value_f f \<noteq> 0 \<or> objectKey f = 1"
  shows "first_alt (token_alts f) (DQ # cs) = Some [DQ]"
proof -
  have "first_alt (struct_alts f) (DQ # cs) = (if objectKey f = 1 then Some [DQ] else None)"
    by (simp add: struct_alts_def starts_with_def first_alt_append)
  with assms show ?thesis
    by (auto simp: token_alts_struct first_alt_append starts_with_def)
qed

text \<open>A number token: its first character, and what the handler makes of it.\<close>

lemma number_token_hd:
  assumes "is_sign sg" "is_digits ds"
  shows "\<exists>c cs. sg @ ds @ t = c # cs \<and> (c = CHR ''-'' \<or> isdigit c)"
  using assms by (cases ds) (auto simp: is_sign_def is_digits_def)

lemma number_start_class:
  assumes "c = CHR ''-'' \<or> isdigit c"
  shows "c \<notin> set ''/{}[],:tfn''" "c \<noteq> DQ" "\<not> isspace c" "c \<noteq> LF"
  using assms by (auto simp: isdigit_def isspace_def)

lemma first_alt_number_token:
  assumes sg: "is_sign sg" and ds: "is_digits ds" and fr: "is_fraction fr" and ex: "is_exponent ex"
    and r: "num_delim r" and f: "\<not> bFinish f" "value_f f \<noteq> 0"
  shows "first_alt (token_alts f) ((sg @ ds @ fr @ ex) @ r) = Some (sg @ ds @ fr @ ex)"
proof -
  from number_token_hd[OF sg ds, of "fr @ ex @ r"] obtain c cs
    where c: "sg @ ds @ fr @ ex @ r = c # cs" "c = CHR ''-'' \<or> isdigit c" by auto
  have "first_alt (token_alts f) (c # cs) = match_number (c # cs)"
    using number_start_class[OF c(2)] f by (intro first_alt_number) auto
  then show ?thesis
    using match_number_exact[OF sg ds fr ex r] c(1) by simp
qed

lemma mapToken_miss:
  assumes "c \<notin> set ''/{}[],:tfn''" "c \<noteq> DQ"
  shows "map_of (mapToken L) (c # cs) = None"
  using assms by (auto simp: mapToken_def)

section \<open>Decimal integers\<close>

lemma digit_char_props:
  assumes "d < 10"
  shows "isdigit (digit_char d)" "digit_val (digit_char d) = d"
proof -
  from assms have "d \<in> {0, 1, 2, 3, 4, 5, 6, 7, 8, 9}" by auto
  then show "isdigit (digit_char d)" "digit_val (digit_char d) = d"
    by (auto simp: digit_char_def isdigit_def digit_val_def)
qed

lemma dec_val_snoc: "dec_val (ds @ [c]) = 10 * dec_val ds + digit_val c"
  by (simp add: dec_val_def)

lemma dec_digits: "is_digits (dec n)"
proof (induction n rule: dec.induct)
  case (1 n)
  show ?case
  proof (cases "n < 10")
    case True
    then show ?thesis
      by (simp add: dec.simps[of n] is_digits_def digit_char_props)
  next
    case False
    with 1 have "is_digits (dec (n div 10))" by simp
    moreover have "isdigit (digit_char (n mod 10))" by (simp add: digit_char_props)
    ultimately show ?thesis
      using False by (simp add: dec.simps[of n] is_digits_def)
  qed
qed

lemma dec_val_dec: "dec_val (dec n) = n"
proof (induction n rule: dec.induct)
  case (1 n)
  show ?case
  proof (cases "n < 10")
    case True
    then show ?thesis
      by (simp add: dec.simps[of n] dec_val_def digit_char_props)
  next
    case False
    with 1 have "dec_val (dec (n div 10)) = n div 10" by simp
    then show ?thesis
      using False by (simp add: dec.simps[of n] dec_val_snoc digit_char_props)
  qed
qed

lemma is_digits_takeWhile: "is_digits ds \<Longrightarrow> takeWhile isdigit ds = ds"
  by (simp add: is_digits_def list_all_iff)

lemma is_digits_hd: "is_digits ds \<Longrightarrow> \<exists>d dt. ds = d # dt \<and> isdigit d"
  by (cases ds) (auto simp: is_digits_def)

lemma stoll_integer_token:
  assumes sg: "is_sign sg" and ds: "is_digits ds"
  shows "stoll (sg @ ds) =
     (let n = (if sg = ''-'' then - int (dec_val ds) else int (dec_val ds))
      in if - (2 ^ 63) \<le> n \<and> n < 2 ^ 63 then Some (word_of_int n) else None)"
proof -
  from is_digits_hd[OF ds] obtain d dt where d: "ds = d # dt" "isdigit d" by auto
  have dne: "ds \<noteq> []" using d by simp
  have tw: "takeWhile isdigit ds = ds" by (rule is_digits_takeWhile[OF ds])
  show ?thesis
  proof (cases "sg = []")
    case True
    have dw: "dropWhile isspace ds = ds"
      using d isdigit_not(18)[OF d(2)] by simp
    have sw: "\<not> starts_with ''-'' ds" "\<not> starts_with ''+'' ds"
      using d isdigit_not(4,5)[OF d(2)] by (auto simp: starts_with_def)
    show ?thesis
      using True dne by (simp add: stoll_def dw sw tw Let_def)
  next
    case False
    with sg have m: "sg = ''-''" by (simp add: is_sign_def)
    show ?thesis
      using dne by (simp add: m stoll_def isspace_def starts_with_def tw Let_def)
  qed
qed

lemma is_integer_token_iff:
  assumes sg: "is_sign sg" and ds: "is_digits ds" and fr: "is_fraction fr" and ex: "is_exponent ex"
  shows "is_integer_token (sg @ ds @ fr @ ex) = (fr = [] \<and> ex = [])"
proof -
  from is_digits_hd[OF ds] obtain d dt where d: "ds = d # dt" "isdigit d" by auto
  have tl: "(if starts_with ''-'' (sg @ ds @ fr @ ex) then tl (sg @ ds @ fr @ ex) else sg @ ds @ fr @ ex)
      = ds @ fr @ ex"
    using sg d isdigit_not(4)[OF d(2)] by (auto simp: is_sign_def starts_with_def)
  have all: "list_all isdigit ds" using ds by (simp add: is_digits_def)
  have frn: "fr \<noteq> [] \<Longrightarrow> \<not> list_all isdigit fr"
    using fr by (cases fr) (auto simp: is_fraction_def isdigit_def)
  have exn: "ex \<noteq> [] \<Longrightarrow> \<not> list_all isdigit ex"
    using ex by (cases ex) (auto simp: is_exponent_def isdigit_def)
  show ?thesis
    unfolding is_integer_token_def Let_def tl
    using d all frn exn by auto
qed

lemma strtod_converts_number:
  assumes sg: "is_sign sg" and ds: "is_digits ds"
  shows "strtod_converts (sg @ ds @ t)"
proof -
  from is_digits_hd[OF ds] obtain d dt where d: "ds = d # dt" "isdigit d" by auto
  show ?thesis
  proof (cases "sg = []")
    case True
    then show ?thesis
      using d isdigit_not(4,5,18)[OF d(2)]
      by (simp add: strtod_converts_def starts_with_def Let_def)
  next
    case False
    with sg have m: "sg = ''-''" by (simp add: is_sign_def)
    show ?thesis
      using d by (simp add: m strtod_converts_def starts_with_def Let_def isspace_def)
  qed
qed

lemma number_value_token:
  assumes sg: "is_sign sg" and ds: "is_digits ds" and fr: "is_fraction fr" and ex: "is_exponent ex"
  shows "number_value L (sg @ ds @ fr @ ex) =
     (let n = (if sg = ''-'' then - int (dec_val ds) else int (dec_val ds))
      in if fr = [] \<and> ex = [] \<and> - (2 ^ 63) \<le> n \<and> n < 2 ^ 63 then Some (JInt (word_of_int n))
         else (case strtod_value L (sg @ ds @ fr @ ex) of
                 None \<Rightarrow> None
               | Some d \<Rightarrow> Some (JFloat d)))"
proof -
  have c: "strtod_converts (sg @ ds @ fr @ ex)"
    by (rule strtod_converts_number[OF sg ds])
  show ?thesis
  proof (cases "fr = [] \<and> ex = []")
    case True
    then show ?thesis
      using is_integer_token_iff[OF sg ds fr ex] stoll_integer_token[OF sg ds] c
      by (simp add: number_value_def stod_def Let_def)
  next
    case False
    then show ?thesis
      using is_integer_token_iff[OF sg ds fr ex] c
      by (auto simp: number_value_def stod_def Let_def)
  qed
qed

lemma State_init_mk: "State_init s = mk s JNull (vflags 3 0) [[]] s []"
  by (simp add: State_init_def vflags_def flags0_def)

lemma loop_finish:
  "P \<noteq> [] \<Longrightarrow> parse_loop L (mk J R (done_flags 3) P [] E) = Inr R"
  by (simp add: parse_loop.simps parse_iter_def done_flags_def flags0_def)

lemma digits_no_LF: "list_all isdigit xs \<Longrightarrow> LF \<notin> set xs"
  by (induction xs) (auto dest: isdigit_not(17))

lemma fraction_no_LF: "is_fraction fr \<Longrightarrow> LF \<notin> set fr"
proof (cases fr)
  case Nil
  then show ?thesis by simp
next
  case (Cons c fs)
  assume "is_fraction fr"
  with Cons have "c = CHR ''.''" "list_all isdigit fs" by (simp_all add: is_fraction_def)
  with Cons digits_no_LF[of fs] show ?thesis by simp
qed

lemma exponent_no_LF: "is_exponent ex \<Longrightarrow> LF \<notin> set ex"
proof (cases ex)
  case Nil
  then show ?thesis by simp
next
  case (Cons e t)
  assume "is_exponent ex"
  with Cons have e: "e = CHR ''e'' \<or> e = CHR ''E''"
    and dg: "is_digits (if starts_with ''+'' t \<or> starts_with ''-'' t then tl t else t)"
    by (auto simp: is_exponent_def)
  have "LF \<notin> set t"
  proof (cases "starts_with ''+'' t \<or> starts_with ''-'' t")
    case True
    then obtain c t' where t: "t = c # t'" and c: "c = CHR ''+'' \<or> c = CHR ''-''"
      by (cases t) (auto simp: starts_with_def)
    from dg True t have "list_all isdigit t'" by (simp add: is_digits_def)
    from digits_no_LF[OF this] t c show ?thesis by auto
  next
    case False
    with dg have "list_all isdigit t" by (simp add: is_digits_def)
    from digits_no_LF[OF this] show ?thesis .
  qed
  with e Cons show ?thesis by auto
qed

lemma number_tokens_no_LF:
  assumes "is_sign sg" "is_digits ds" "is_fraction fr" "is_exponent ex"
  shows "LF \<notin> set (sg @ ds @ fr @ ex)"
proof -
  have "LF \<notin> set sg" using assms(1) by (auto simp: is_sign_def)
  moreover have "LF \<notin> set ds" using assms(2) digits_no_LF by (simp add: is_digits_def)
  ultimately show ?thesis
    using fraction_no_LF[OF assms(3)] exponent_no_LF[OF assms(4)] by simp
qed

lemma iter_number_token:
  assumes sg: "is_sign sg" and ds: "is_digits ds" and fr: "is_fraction fr" and ex: "is_exponent ex"
    and r: "num_delim r" "LF \<notin> set r" and f: "\<not> bFinish F" "value_f F \<noteq> 0" and P: "P \<noteq> []"
  shows "parse_iter L (mk J R F P ((sg @ ds @ fr @ ex) @ r) E) =
     (case number_value L (sg @ ds @ fr @ ex) of
        None \<Rightarrow> Throw (ParseException (length J - length r))
      | Some v \<Rightarrow> run_handler (setValue v (mk J R F P r [])))"
proof -
  from number_token_hd[OF sg ds, of "fr @ ex"] obtain c cs
    where c: "sg @ ds @ fr @ ex = c # cs" "c = CHR ''-'' \<or> isdigit c" by auto
  note cl = number_start_class[OF c(2)]
  have F0: "F \<noteq> flags0" using f(2) by (auto simp: flags0_def)
  have nl: "LF \<notin> set ((sg @ ds @ fr @ ex) @ r)"
    using number_tokens_no_LF[OF sg ds fr ex] r(2) by simp
  have tk: "sg @ ds @ fr @ ex \<noteq> []" "\<not> isspace (hd (sg @ ds @ fr @ ex))"
    using c cl by simp_all
  have mt: "map_of (mapToken L) (sg @ ds @ fr @ ex) = None"
    unfolding c(1) using cl by (intro mapToken_miss) auto
  show ?thesis
    using iter_token[OF F0 P nl tk first_alt_number_token[OF sg ds fr ex r(1) f], of L J R E] mt
    by simp
qed

lemma parse_number_token:
  assumes sg: "is_sign sg" and ds: "is_digits ds" and fr: "is_fraction fr" and ex: "is_exponent ex"
  shows "parse L (sg @ ds @ fr @ ex) opt =
     (case number_value L (sg @ ds @ fr @ ex) of
        None \<Rightarrow> Inl (ParseException (length (sg @ ds @ fr @ ex)))
      | Some v \<Rightarrow> Inr v)"
proof -
  let ?t = "sg @ ds @ fr @ ex"
  have ctx: "value_ctx 3 (JNull :: 'a JsonT) [[]]"
    by (simp add: value_ctx_def)
  have it: "parse_iter L (mk ?t JNull (vflags 3 0) [[]] (?t @ []) []) =
     (case number_value L ?t of
        None \<Rightarrow> Throw (ParseException (length ?t - length ([] :: string)))
      | Some v \<Rightarrow> run_handler (setValue v (mk ?t JNull (vflags 3 0) [[]] [] [])))"
    by (rule iter_number_token[OF sg ds fr ex]) (simp_all add: num_delim_def vflags_def)
  show ?thesis
  proof (cases "number_value L ?t")
    case None
    with it show ?thesis
      by (simp add: parse_def State_init_mk parse_loop.simps[of L "mk ?t JNull (vflags 3 0) [[]] ?t []"])
  next
    case (Some v)
    with it have "parse_iter L (mk ?t JNull (vflags 3 0) [[]] ?t []) =
        Continue (mk ?t (place 3 JNull [[]] v) (done_flags 3) (done_parents 3 [[]]) [] [])"
      by (simp add: setValue_place[OF ctx] run_handler_def)
    from loop_step[OF this] Some show ?thesis
      by (simp add: parse_def State_init_mk loop_finish done_parents_def place_def)
  qed
qed

lemma parse_plus: "parse L (CHR ''+'' # s) opt = Inl (ParseException 0)"
proof -
  let ?t = "CHR ''+'' # s"
  have le: "length (line_end ?t) \<le> length s"
    using line_end_length[of s] by (simp add: line_end_def)
  then have ln: "line (mk ?t JNull (vflags 3 0) [[]] ?t (line_end ?t)) =
      CHR ''+'' # take (length s - length (line_end ?t)) s"
    by (simp add: line_def Suc_diff_le)
  have fa: "first_alt (token_alts (vflags 3 0)) (CHR ''+'' # cs) = None" for cs
    by (simp add: token_alts_def vflags_def starts_with_def match_number_def isdigit_def)
  have "parse_iter L (mk ?t JNull (vflags 3 0) [[]] ?t []) = Throw (ParseException 0)"
    unfolding parse_iter_def
    by (simp add: vflags_not_flags0 Let_def ln get_token_def regex_token_def isspace_def fa
        mapToken_def number_value_def is_integer_token_def starts_with_def stod_def
        strtod_converts_def position_def)
  then show ?thesis
    by (simp add: parse_def State_init_mk parse_loop.simps[of L "mk ?t JNull (vflags 3 0) [[]] ?t []"])
qed

section \<open>Strings: fEscape and the decoding loop\<close>

definition escape_char :: "char \<Rightarrow> string" where
  "escape_char c =
     (if c = BSL then [BSL, BSL]
      else if c = DQ then [BSL, DQ]
      else if c = CR then [BSL, CHR ''r'']
      else if c = TAB then [BSL, CHR ''t'']
      else if c = CHR ''/'' then [BSL, CHR ''/'']
      else if c = BS then [BSL, CHR ''b'']
      else [c])"

lemma replace_all_char:
  "replace_all [c] dst s = concat (map (\<lambda>x. if x = c then dst else [x]) s)"
  by (induction s) (simp_all add: replace_all.simps starts_with_def)

lemma concat_map_concat:
  "concat (map f (concat (map g s))) = concat (map (\<lambda>x. concat (map f (g x))) s)"
  by (induction s) auto

lemma fEscape_concat: "fEscape s = concat (map escape_char s)"
proof -
  have "(\<lambda>x. concat (map (\<lambda>x. if x = BS then [BSL, CHR ''b''] else [x])
          (concat (map (\<lambda>x. if x = CHR ''/'' then [BSL, CHR ''/''] else [x])
            (concat (map (\<lambda>x. if x = TAB then [BSL, CHR ''t''] else [x])
              (concat (map (\<lambda>x. if x = CR then [BSL, CHR ''r''] else [x])
                (concat (map (\<lambda>x. if x = DQ then [BSL, DQ] else [x])
                  (if x = BSL then [BSL, BSL] else [x]))))))))))) = escape_char"
    by (rule ext) (simp add: escape_char_def)
  then show ?thesis
    by (simp add: fEscape_def fEscape_tbl_def replace_all_char concat_map_concat)
qed

lemma escape_char_no_LF: "c \<noteq> LF \<Longrightarrow> LF \<notin> set (escape_char c)"
  by (simp add: escape_char_def)

lemma fEscape_no_LF: "LF \<notin> set s \<Longrightarrow> LF \<notin> set (fEscape s)"
  unfolding fEscape_concat by (induction s) (auto simp: escape_char_def split: if_splits)

lemma match_esc_quote: "match_esc (DQ # s) = Some [DQ]"
  by (simp add: match_esc_def is_surrogate_pair_def is_u_escape_def mapReplace_def starts_with_def)

lemma match_esc_plain: "c \<noteq> BSL \<Longrightarrow> c \<noteq> DQ \<Longrightarrow> match_esc (c # s) = None"
  by (simp add: match_esc_def is_surrogate_pair_def is_u_escape_def mapReplace_def starts_with_def)

lemma match_esc_pair:
  "map_of mapReplace [BSL, x] = Some r \<Longrightarrow> match_esc (BSL # x # s) = Some [BSL, x]"
  by (auto simp: match_esc_def is_surrogate_pair_def is_u_escape_def mapReplace_def
      split: if_splits)

lemma decode_string_quote: "decode_string L res (DQ # rest) = Inr (res, rest)"
  by (simp add: decode_string.simps match_esc_quote)

lemma decode_string_pair:
  "map_of mapReplace [BSL, x] = Some r \<Longrightarrow>
   decode_string L res (BSL # x # s) = decode_string L (res @ r) s"
  using match_esc_pair[of x r s]
  by (simp add: decode_string.simps[of L res "BSL # x # s"] mapReplace_def split: if_splits)

lemma decode_string_plain:
  assumes "c \<noteq> BSL" "c \<noteq> DQ" "c \<noteq> LF" "c \<noteq> CR"
    and "decode_string L (res @ [c]) s = Inr y"
  shows "decode_string L res (c # s) = Inr y"
proof (cases "regex_string s")
  case None
  with assms(5) show ?thesis by (simp add: decode_string.simps[of L "res @ [c]" s])
next
  case (Some x)
  obtain pre tok rest where x: "x = (pre, tok, rest)" by (cases x) auto
  have r: "regex_string (c # s) = Some (c # pre, tok, rest)"
    using assms(1-4) Some x by (simp add: match_esc_plain)
  have a: "decode_string L (res @ [c]) s =
      (if tok = [DQ] then Inr ((res @ [c]) @ pre, rest)
       else case map_of mapReplace tok of
            None \<Rightarrow>
              (case to_bytes L (takeWhile (\<lambda>u. u \<noteq> 0) (code_units tok)) of
                 None \<Rightarrow> Inl rest
               | Some su8 \<Rightarrow> decode_string L ((res @ [c]) @ pre @ su8) rest)
            | Some r \<Rightarrow> decode_string L ((res @ [c]) @ pre @ r) rest)"
    by (subst decode_string.simps) (simp add: Some x)
  have b: "decode_string L res (c # s) =
      (if tok = [DQ] then Inr (res @ (c # pre), rest)
       else case map_of mapReplace tok of
            None \<Rightarrow>
              (case to_bytes L (takeWhile (\<lambda>u. u \<noteq> 0) (code_units tok)) of
                 None \<Rightarrow> Inl rest
               | Some su8 \<Rightarrow> decode_string L (res @ (c # pre) @ su8) rest)
            | Some r \<Rightarrow> decode_string L (res @ (c # pre) @ r) rest)"
    by (subst decode_string.simps) (simp only: r option.case prod.case)
  have "decode_string L res (c # s) = decode_string L (res @ [c]) s"
    unfolding a b by (simp split: option.splits)
  with assms(5) show ?thesis by simp
qed

lemma escape_char_cases:
  "(\<exists>x. escape_char c = [BSL, x] \<and> map_of mapReplace [BSL, x] = Some [c])
   \<or> (escape_char c = [c] \<and> c \<noteq> BSL \<and> c \<noteq> DQ \<and> c \<noteq> CR)"
  by (simp add: escape_char_def mapReplace_def)

lemma decode_string_escaped:
  "LF \<notin> set s \<Longrightarrow> decode_string L res (fEscape s @ DQ # rest) = Inr (res @ s, rest)"
  unfolding fEscape_concat
proof (induction s arbitrary: res)
  case Nil
  show ?case by (simp add: decode_string_quote)
next
  case (Cons c s)
  then have IH: "\<And>res. decode_string L res (concat (map escape_char s) @ DQ # rest) = Inr (res @ s, rest)"
    and c: "c \<noteq> LF" by auto
  from escape_char_cases[of c] show ?case
  proof (elim disjE exE conjE)
    fix x
    assume e: "escape_char c = [BSL, x]" and m: "map_of mapReplace [BSL, x] = Some [c]"
    show ?thesis
      using decode_string_pair[OF m, of L res "concat (map escape_char s) @ DQ # rest"] IH[of "res @ [c]"]
      by (simp add: e)
  next
    assume e: "escape_char c = [c]" and n: "c \<noteq> BSL" "c \<noteq> DQ" "c \<noteq> CR"
    show ?thesis
      using decode_string_plain[OF n(1,2) c n(3), of L res _ "(res @ c # s, rest)"] IH[of "res @ [c]"]
      by (simp add: e)
  qed
qed

section \<open>Integers and strings as values\<close>

lemma ok_rest_num_delim: "ok_rest r \<Longrightarrow> num_delim r"
  by (cases r) (auto simp: ok_rest_def num_delim_def isdigit_def)

lemma to_string_i_parts:
  "to_string_i i = (if sint i < 0 then ''-'' else []) @ dec (nat \<bar>sint i\<bar>) @ [] @ []"
  by (simp add: to_string_i_def)

lemma number_value_to_string_i: "number_value L (to_string_i i) = Some (JInt i)"
proof -
  let ?sg = "if sint i < 0 then ''-'' else []"
  let ?ds = "dec (nat \<bar>sint i\<bar>)"
  have sg: "is_sign ?sg" by (simp add: is_sign_def)
  have n: "(if ?sg = ''-'' then - int (dec_val ?ds) else int (dec_val ?ds)) = sint i"
    by (simp add: dec_val_dec)
  have lo: "- (2 ^ 63) \<le> sint i" using sint_ge[of i] by simp
  have hi: "sint i < 2 ^ 63" using sint_lt[of i] by simp
  have fr: "is_fraction []" by (simp add: is_fraction_def)
  have ex: "is_exponent []" by (simp add: is_exponent_def)
  note eq = number_value_token[OF sg dec_digits fr ex, of L]
  have "number_value L (?sg @ ?ds @ [] @ []) = Some (JInt i)"
    unfolding eq Let_def n using lo hi by simp
  then show ?thesis
    unfolding to_string_i_parts .
qed

lemma parses_to_Int: "parses_to L (to_string_i i) (JInt i)"
  unfolding parses_to_def
proof (intro conjI allI impI)
  let ?sg = "if sint i < 0 then ''-'' else []"
  let ?ds = "dec (nat \<bar>sint i\<bar>)"
  have sg: "is_sign ?sg" by (simp add: is_sign_def)
  have fr: "is_fraction []" by (simp add: is_fraction_def)
  have ex: "is_exponent []" by (simp add: is_exponent_def)
  have ts: "to_string_i i = ?sg @ ?ds @ [] @ []" by (rule to_string_i_parts)
  show "LF \<notin> set (to_string_i i)"
    unfolding ts by (rule number_tokens_no_LF[OF sg dec_digits fr ex])
  fix J and R :: "'a JsonT" and P rest E k e
  assume ctx: "value_ctx k R P" and e: "e \<in> {0::nat, 3}" and rest: "ok_rest rest"
  have k: "k \<noteq> 0" using value_ctx_cases[OF ctx] by auto
  have "parse_iter L (mk J R (vflags k e) P ((?sg @ ?ds @ [] @ []) @ rest) E) =
     (case number_value L (?sg @ ?ds @ [] @ []) of
        None \<Rightarrow> Throw (ParseException (length J - length rest))
      | Some v \<Rightarrow> run_handler (setValue v (mk J R (vflags k e) P rest [])))"
    using rest k
    by (intro iter_number_token[OF sg dec_digits fr ex ok_rest_num_delim _ _ _ value_ctx_parents[OF ctx]])
      (simp_all add: ok_rest_def vflags_def)
  then have "parse_iter L (mk J R (vflags k e) P (to_string_i i @ rest) E) =
      Continue (mk J (place k R P (JInt i)) (done_flags k) (done_parents k P) rest [])"
    unfolding ts[symmetric] number_value_to_string_i
    by (simp add: setValue_place[OF ctx] run_handler_def)
  then show "parse_loop L (mk J R (vflags k e) P (to_string_i i @ rest) E) =
      parse_loop L (mk J (place k R P (JInt i)) (done_flags k) (done_parents k P) rest [])"
    by (rule loop_step)
qed

lemma line_mk_Nil: "line (mk J R F P I []) = I"
  by (simp add: line_def)

lemma on_string_value:
  assumes "LF \<notin> set s" "objectKey F \<noteq> 1"
  shows "on_string L (mk J R F P (fEscape s @ DQ # rest) []) = setValue (JString s) (mk J R F P rest [])"
  using assms by (simp add: on_string_def line_mk_Nil decode_string_escaped Let_def)

lemma vflags_sel [simp]:
  "bFinish (vflags k e) = False" "bBegin (vflags k e) = True" "end_f (vflags k e) = e"
  "objectKey (vflags k e) = 0" "value_f (vflags k e) = k"
  by (simp_all add: vflags_def)

lemma parses_to_String:
  assumes s: "LF \<notin> set s"
  shows "parses_to L ([DQ] @ fEscape s @ [DQ]) (JString s)"
  unfolding parses_to_def
proof (intro conjI allI impI)
  show "LF \<notin> set ([DQ] @ fEscape s @ [DQ])"
    using fEscape_no_LF[OF s] by simp
  fix J and R :: "'a JsonT" and P rest E k e
  assume ctx: "value_ctx k R P" and e: "e \<in> {0::nat, 3}" and rest: "ok_rest rest"
  have k: "k \<noteq> 0" using value_ctx_cases[OF ctx] by auto
  have nl: "LF \<notin> set ([DQ] @ (fEscape s @ DQ # rest))"
    using fEscape_no_LF[OF s] rest by (simp add: ok_rest_def)
  have fa: "first_alt (token_alts (vflags k e)) ([DQ] @ (fEscape s @ DQ # rest)) = Some [DQ]"
    using k by (simp add: first_alt_quote_value)
  have "parse_iter L (mk J R (vflags k e) P ([DQ] @ (fEscape s @ DQ # rest)) E) =
      run_handler (on_string L (mk J R (vflags k e) P (fEscape s @ DQ # rest) []))"
    using iter_token[OF vflags_not_flags0 value_ctx_parents[OF ctx] nl _ _ fa, of L J R E]
    by (simp add: mapToken_def isspace_def)
  then have "parse_iter L (mk J R (vflags k e) P (([DQ] @ fEscape s @ [DQ]) @ rest) E) =
      Continue (mk J (place k R P (JString s)) (done_flags k) (done_parents k P) rest [])"
    by (simp add: on_string_value[OF s] setValue_place[OF ctx] run_handler_def)
  then show "parse_loop L (mk J R (vflags k e) P (([DQ] @ fEscape s @ [DQ]) @ rest) E) =
      parse_loop L (mk J (place k R P (JString s)) (done_flags k) (done_parents k P) rest [])"
    by (rule loop_step)
qed

section \<open>Containers: the node a container is built in\<close>

definition cptr :: "nat \<Rightarrow> 'f JsonT \<Rightarrow> ptr list \<Rightarrow> ptr" where
  "cptr k R P =
     (if k = 2 then hd P @ [ArrayElem (length (get_Array (get_at R (hd P))))] else hd P)"

definition parents_in :: "nat \<Rightarrow> 'f JsonT \<Rightarrow> ptr list \<Rightarrow> ptr list" where
  "parents_in k R P = (if k = 2 then cptr k R P # P else P)"

lemma parents_in_hd: "value_ctx k R P \<Longrightarrow> parents_in k R P = cptr k R P # tl (parents_in k R P)"
  using value_ctx_parents[of k R P] by (cases P) (auto simp: parents_in_def cptr_def)

lemma parents_in_hd2:
  "value_ctx k R P \<Longrightarrow> hd (parents_in k R P) = cptr k R P \<and> parents_in k R P \<noteq> []"
  using value_ctx_parents[of k R P] by (cases P) (auto simp: parents_in_def cptr_def)

lemma place_2:
  "place 2 R P v = modify_at (hd P) (\<lambda>x. JArray (get_Array (get_at R (hd P)) @ [v])) R"
  unfolding place_def by (rule modify_at_cong_at) simp

lemma place_13: "k \<noteq> 2 \<Longrightarrow> place k R P v = modify_at (hd P) (\<lambda>x. v) R"
  by (simp add: place_def)

lemma value_ctx_valid: "value_ctx k R P \<Longrightarrow> valid_ptr R (hd P)"
  by (auto simp: value_ctx_def split: if_splits)

lemma get_at_place:
  assumes "value_ctx k R P"
  shows "get_at (place k R P v) (cptr k R P) = v"
proof (cases "k = 2")
  case True
  have "get_at (place 2 R P v) (hd P) = JArray (get_Array (get_at R (hd P)) @ [v])"
    unfolding place_2 by (simp add: get_at_modify_at[OF value_ctx_valid[OF assms]])
  then show ?thesis
    using True by (simp add: cptr_def get_at_append)
next
  case False
  then show ?thesis
    by (simp add: cptr_def place_13 get_at_modify_at[OF value_ctx_valid[OF assms]])
qed

lemma valid_place:
  assumes "value_ctx k R P"
  shows "valid_ptr (place k R P v) (cptr k R P)"
proof (cases "k = 2")
  case True
  have g: "get_at (place 2 R P v) (hd P) = JArray (get_Array (get_at R (hd P)) @ [v])"
    unfolding place_2 by (simp add: get_at_modify_at[OF value_ctx_valid[OF assms]])
  have "valid_ptr (place 2 R P v) (hd P)"
    unfolding place_2 by (rule valid_ptr_modify_at[OF value_ctx_valid[OF assms]])
  then show ?thesis
    using True g by (simp add: cptr_def valid_ptr_append)
next
  case False
  then show ?thesis
    by (simp add: cptr_def place_13 valid_ptr_modify_at[OF value_ctx_valid[OF assms]])
qed

lemma modify_place:
  assumes "value_ctx k R P"
  shows "modify_at (cptr k R P) f (place k R P v) = place k R P (f v)"
proof (cases "k = 2")
  case True
  let ?a = "get_Array (get_at R (hd P))"
  have "modify_at (hd P @ [ArrayElem (length ?a)]) f (place 2 R P v)
      = modify_at (hd P) (\<lambda>x. modify_at [ArrayElem (length ?a)] f (JArray (?a @ [v]))) R"
    unfolding place_2 modify_at_append by (simp only: modify_at_compose)
  also have "modify_at [ArrayElem (length ?a)] f (JArray (?a @ [v])) = JArray (?a @ [f v])"
    by simp
  finally show ?thesis
    using True by (simp add: cptr_def place_2)
next
  case False
  then show ?thesis
    by (simp add: cptr_def place_13 modify_at_compose)
qed

lemma inner_ctx_array:
  assumes "value_ctx k R P"
  shows "value_ctx 2 (place k R P (JArray a)) (parents_in k R P)"
  using parents_in_hd2[OF assms] valid_place[OF assms, of "JArray a"] get_at_place[OF assms, of "JArray a"]
  by (simp add: value_ctx_def)

lemma inner_place_array:
  assumes "value_ctx k R P"
  shows "place 2 (place k R P (JArray a)) (parents_in k R P) x = place k R P (JArray (a @ [x]))"
proof -
  have h: "hd (parents_in k R P) = cptr k R P"
    using parents_in_hd2[OF assms] by simp
  show ?thesis
    unfolding place_2 h get_at_place[OF assms]
    by (simp add: modify_place[OF assms])
qed

text \<open>Opening and closing a container.\<close>

lemma on_begin_place:
  assumes ctx: "value_ctx k R P" and en: "ensure = ensureArray \<or> ensure = ensureMap"
  shows "on_begin ensure fl (mk J R (vflags k e) P I E) =
         Inr (mk J (place k R P (ensure JNull)) fl (parents_in k R P) I E)"
proof -
  from value_ctx_cases[OF ctx] consider "k = 2" | "k \<noteq> 2" by auto
  then show ?thesis
  proof cases
    case 1
    with ctx have ty: "type (get_at R (hd P)) = TypeArray" by (simp add: value_ctx_def)
    then obtain a where a: "get_at R (hd P) = JArray a" by (cases "get_at R (hd P)") auto
    let ?n = "length a"
    have r1: "modify_at (hd P) (\<lambda>p. fst (subscript_index p ?n)) R = place 2 R P JNull"
      unfolding place_def
      by (rule modify_at_cong_at) (simp add: a subscript_index_def ensureArray_def resize_def Let_def)
    have c: "hd P @ [ArrayElem ?n] = cptr 2 R P" by (simp add: cptr_def a)
    have "modify_at (hd P @ [ArrayElem ?n]) ensure (place 2 R P JNull) = place 2 R P (ensure JNull)"
      unfolding c using modify_place[OF ctx[unfolded 1]] .
    then show ?thesis
      using 1 ty a r1 c
      by (simp add: on_begin_def Let_def isType_def parents_in_def)
  next
    case 2
    with ctx have n: "get_at R (hd P) = JNull" by (auto simp: value_ctx_def split: if_splits)
    have "modify_at (hd P) ensure R = place k R P (ensure JNull)"
      unfolding place_13[OF 2] by (rule modify_at_cong_at) (simp add: n)
    then show ?thesis
      using 2 n by (simp add: on_begin_def Let_def isType_def isNull_def parents_in_def)
  qed
qed

lemma setEnd_place:
  assumes ctx: "value_ctx k R P"
  shows "setEnd (mk J (place k R P cv) F (parents_in k R P) I E) =
         Inr (mk J (place k R P cv) (done_flags k) (done_parents k P) I E)"
proof -
  from value_ctx_cases[OF ctx] consider "k = 1" | "k = 2" | "k = 3" by auto
  then show ?thesis
  proof cases
    case 1
    with ctx obtain q c qs where P: "P = (q @ [c]) # q # qs" and v: "valid_ptr R (q @ [c])"
      and t: "type (get_at R q) = TypeMap"
      by (auto simp: value_ctx_def)
    have vq: "valid_ptr R q" using v by (simp add: valid_ptr_append)
    have p: "place 1 R ((q @ [c]) # q # qs) cv = modify_at (q @ [c]) (\<lambda>x. cv) R"
      using place_13[of 1 R "(q @ [c]) # q # qs" cv] by simp
    have g: "get_at (place 1 R P cv) q = assign_ref (get_at R q) c cv"
      unfolding P p
      by (simp add: modify_at_append get_at_modify_at[OF vq])
    have "type (get_at (place 1 R P cv) q) = TypeMap"
      unfolding g by (simp add: type_assign_ref t)
    then show ?thesis
      using 1 P by (simp add: setEnd_def parents_in_def done_flags_def done_parents_def Let_def)
  next
    case 2
    have "get_at (place 2 R P cv) (hd P) = JArray (get_Array (get_at R (hd P)) @ [cv])"
      unfolding place_2 by (simp add: get_at_modify_at[OF value_ctx_valid[OF ctx]])
    then show ?thesis
      using 2 value_ctx_parents[OF ctx]
      by (simp add: setEnd_def parents_in_def done_flags_def done_parents_def Let_def)
  next
    case 3
    with ctx obtain top where "P = [top]" by (auto simp: value_ctx_def)
    with 3 show ?thesis
      by (simp add: setEnd_def parents_in_def done_flags_def done_parents_def)
  qed
qed

lemma on_array_end_place:
  assumes ctx: "value_ctx k R P"
  shows "on_array_end (mk J (place k R P (JArray a)) F (parents_in k R P) I E) =
         Inr (mk J (place k R P (JArray a)) (done_flags k) (done_parents k P) I E)"
proof -
  have h: "hd (parents_in k R P) = cptr k R P"
    using parents_in_hd2[OF ctx] by simp
  show ?thesis
    by (simp add: on_array_end_def h get_at_place[OF ctx] isType_def setEnd_place[OF ctx])
qed

lemma on_object_end_place:
  assumes ctx: "value_ctx k R P"
  shows "on_object_end (mk J (place k R P (JMap m)) F (parents_in k R P) I E) =
         Inr (mk J (place k R P (JMap m)) (done_flags k) (done_parents k P) I E)"
proof -
  have h: "hd (parents_in k R P) = cptr k R P"
    using parents_in_hd2[OF ctx] by simp
  show ?thesis
    by (simp add: on_object_end_def h get_at_place[OF ctx] isType_def setEnd_place[OF ctx])
qed

section \<open>Arrays\<close>

text \<open>The text \<^verbatim>\<open>stringify\<close> writes for an array whose elements are written as \<open>ts\<close>.\<close>

definition array_text :: "string list \<Rightarrow> string" where
  "array_text ts = pop_back_if (length ts \<ge> 1) (''['' @ concat (map (\<lambda>t. t @ '','') ts)) @ '']''"

lemma stringify_array: "stringify L (JArray a) = array_text (map (stringify L) a)"
  by (simp add: array_text_def comp_def)

lemma concat_sep:
  "concat (map (\<lambda>t. t @ [c]) (t # ts)) = t @ concat (map (\<lambda>u. c # u) ts) @ [c]"
  by (induction ts arbitrary: t) auto

lemma array_text_Nil: "array_text [] = ''[]''"
  by (simp add: array_text_def pop_back_if_def)

lemma array_text_Cons:
  "array_text (t # ts) = ''['' @ t @ concat (map (\<lambda>u. CHR '','' # u) ts) @ '']''"
proof -
  have "butlast (''['' @ concat (map (\<lambda>t. t @ '','') (t # ts)))
      = ''['' @ t @ concat (map (\<lambda>u. CHR '','' # u) ts)"
    unfolding concat_sep
    by (simp add: butlast_append)
  then show ?thesis
    by (simp add: array_text_def pop_back_if_def)
qed

lemma done_flags_2: "done_flags 2 = \<lparr>bFinish = False, bBegin = False, end_f = 4, objectKey = 0, value_f = 0\<rparr>"
  by (simp add: done_flags_def flags0_def)

lemma done_flags_1: "done_flags 1 = \<lparr>bFinish = False, bBegin = False, end_f = 2, objectKey = 0, value_f = 0\<rparr>"
  by (simp add: done_flags_def flags0_def)

lemma iter_array_end:
  assumes ctx: "value_ctx k R P" and rest: "LF \<notin> set rest"
    and F: "F = done_flags 2 \<or> F = vflags 2 3"
  shows "parse_loop L (mk J (place k R P (JArray a)) F (parents_in k R P) ('']'' @ rest) E) =
         parse_loop L (mk J (place k R P (JArray a)) (done_flags k) (done_parents k P) rest [])"
proof -
  have F0: "F \<noteq> flags0" using F by (auto simp: done_flags_2 vflags_def flags0_def)
  have Pn: "parents_in k R P \<noteq> []" using parents_in_hd2[OF ctx] by simp
  have nl: "LF \<notin> set ('']'' @ rest)" using rest by simp
  have fa: "first_alt (token_alts F) ('']'' @ rest) = Some '']''"
    using F by (auto simp: done_flags_2 vflags_def token_alts_def starts_with_def)
  have "parse_iter L (mk J (place k R P (JArray a)) F (parents_in k R P) ('']'' @ rest) E) =
      run_handler (on_array_end (mk J (place k R P (JArray a)) F (parents_in k R P) rest []))"
    using iter_token[OF F0 Pn nl _ _ fa, of L J "place k R P (JArray a)" E]
    by (simp add: mapToken_def isspace_def)
  then show ?thesis
    by (intro loop_step) (simp add: on_array_end_place[OF ctx] run_handler_def)
qed

lemma iter_comma_array:
  assumes Pn: "Pin \<noteq> []" and rest: "LF \<notin> set rest"
  shows "parse_loop L (mk J R' (done_flags 2) Pin ('','' @ rest) E) =
         parse_loop L (mk J R' (vflags 2 0) Pin rest [])"
proof -
  have F0: "done_flags 2 \<noteq> flags0" by (simp add: done_flags_2 flags0_def)
  have nl: "LF \<notin> set ('','' @ rest)" using rest by simp
  have fa: "first_alt (token_alts (done_flags 2)) ('','' @ rest) = Some '',''"
    by (simp add: done_flags_2 token_alts_def starts_with_def)
  have "parse_iter L (mk J R' (done_flags 2) Pin ('','' @ rest) E) =
      run_handler (on_comma (mk J R' (done_flags 2) Pin rest []))"
    using iter_token[OF F0 Pn nl _ _ fa, of L J R' E]
    by (simp add: mapToken_def isspace_def)
  then show ?thesis
    by (intro loop_step) (simp add: on_comma_def done_flags_2 run_handler_def vflags_def flags0_def)
qed

lemma parses_to_no_LF: "parses_to L t v \<Longrightarrow> LF \<notin> set t"
  by (simp add: parses_to_def)

lemma parses_to_loop:
  assumes "parses_to L t v" "value_ctx k R P" "e = 0 \<or> e = 3" "ok_rest rest"
  shows "parse_loop L (mk J R (vflags k e) P (t @ rest) E) =
         parse_loop L (mk J (place k R P v) (done_flags k) (done_parents k P) rest [])"
  using assms unfolding parses_to_def by blast

lemma tail_no_LF:
  assumes "list_all2 (parses_to L) ts vs" "LF \<notin> set rest"
  shows "(LF \<notin> set (concat (map (\<lambda>u. CHR '','' # u) ts) @ c # rest)) = (c \<noteq> LF)"
  using assms by (induction ts vs rule: list_all2_induct) (auto dest: parses_to_no_LF)

lemma array_tail:
  assumes ctx: "value_ctx k R P" and all: "list_all2 (parses_to L) ts vs" and rest: "LF \<notin> set rest"
  shows "parse_loop L (mk J (place k R P (JArray pre)) (done_flags 2) (parents_in k R P)
            (concat (map (\<lambda>u. CHR '','' # u) ts) @ '']'' @ rest) E) =
         parse_loop L (mk J (place k R P (JArray (pre @ vs))) (done_flags k) (done_parents k P) rest [])"
  using all
proof (induction ts vs arbitrary: pre E rule: list_all2_induct)
  case Nil
  show ?case
    using iter_array_end[OF ctx rest, of "done_flags 2" L J pre E] by simp
next
  case (Cons t ts v vs)
  let ?rest = "concat (map (\<lambda>u. CHR '','' # u) ts) @ '']'' @ rest"
  have Pn: "parents_in k R P \<noteq> []" using parents_in_hd2[OF ctx] by simp
  have nl: "LF \<notin> set ?rest"
    using tail_no_LF[where c = "CHR '']''", OF Cons.hyps(2) rest] by simp
  have ok: "ok_rest ?rest"
    using nl by (cases ts) (auto simp: ok_rest_def)
  have nl2: "LF \<notin> set (t @ ?rest)"
    using nl parses_to_no_LF[OF Cons.hyps(1)] by simp
  have "parse_loop L (mk J (place k R P (JArray pre)) (done_flags 2) (parents_in k R P)
            (concat (map (\<lambda>u. CHR '','' # u) (t # ts)) @ '']'' @ rest) E) =
        parse_loop L (mk J (place k R P (JArray pre)) (vflags 2 0) (parents_in k R P) (t @ ?rest) [])"
    using iter_comma_array[OF Pn nl2, of L J "place k R P (JArray pre)" E] by simp
  also have "\<dots> = parse_loop L (mk J (place k R P (JArray (pre @ [v]))) (done_flags 2)
            (parents_in k R P) ?rest [])"
    using parses_to_loop[OF Cons.hyps(1) inner_ctx_array[OF ctx, of pre] _ ok, of 0 J "[]"]
    by (simp add: inner_place_array[OF ctx] done_parents_def)
  also have "\<dots> = parse_loop L (mk J (place k R P (JArray ((pre @ [v]) @ vs))) (done_flags k)
            (done_parents k P) rest [])"
    by (rule Cons.IH)
  finally show ?case by simp
qed

lemma iter_array_begin:
  assumes ctx: "value_ctx k R P" and e: "e = 0 \<or> e = 3" and rest: "LF \<notin> set rest"
  shows "parse_loop L (mk J R (vflags k e) P (''['' @ rest) E) =
         parse_loop L (mk J (place k R P (JArray [])) (vflags 2 3) (parents_in k R P) rest [])"
proof -
  have k: "k \<noteq> 0" using value_ctx_cases[OF ctx] by auto
  have nl: "LF \<notin> set (''['' @ rest)" using rest by simp
  have fa: "first_alt (token_alts (vflags k e)) (''['' @ rest) = Some ''[''"
    using k e by (auto simp: vflags_def token_alts_def starts_with_def)
  have fl: "flags0\<lparr>bBegin := True, value_f := 2, end_f := 3\<rparr> = vflags 2 3"
    by (simp add: vflags_def flags0_def)
  have "parse_iter L (mk J R (vflags k e) P (''['' @ rest) E) =
      run_handler (on_array_begin (mk J R (vflags k e) P rest []))"
    using iter_token[OF vflags_not_flags0 value_ctx_parents[OF ctx] nl _ _ fa, of L J R E]
    by (simp add: mapToken_def isspace_def)
  then show ?thesis
    by (intro loop_step)
      (simp add: on_array_begin_def fl on_begin_place[OF ctx] run_handler_def ensureArray_def)
qed

lemma parses_to_Array:
  assumes all: "list_all2 (parses_to L) ts vs"
  shows "parses_to L (array_text ts) (JArray vs)"
  unfolding parses_to_def
proof (intro conjI allI impI)
  have "\<forall>t \<in> set ts. LF \<notin> set t"
    using all by (induction rule: list_all2_induct) (auto dest: parses_to_no_LF)
  then show "LF \<notin> set (array_text ts)"
    by (cases ts) (auto simp: array_text_Nil array_text_Cons)
  fix J and R :: "'a JsonT" and P rest E k e
  assume ctx: "value_ctx k R P" and e: "e \<in> {0::nat, 3}" and rest: "ok_rest rest"
  have e': "e = 0 \<or> e = 3" using e by auto
  have rnl: "LF \<notin> set rest" using rest by (simp add: ok_rest_def)
  show "parse_loop L (mk J R (vflags k e) P (array_text ts @ rest) E) =
        parse_loop L (mk J (place k R P (JArray vs)) (done_flags k) (done_parents k P) rest [])"
  proof (cases ts)
    case Nil
    with all have vs: "vs = []" by simp
    have "parse_loop L (mk J R (vflags k e) P (''['' @ '']'' @ rest) E) =
          parse_loop L (mk J (place k R P (JArray [])) (vflags 2 3) (parents_in k R P) ('']'' @ rest) [])"
      using rnl by (intro iter_array_begin[OF ctx e']) simp
    also have "\<dots> = parse_loop L (mk J (place k R P (JArray [])) (done_flags k) (done_parents k P) rest [])"
      by (rule iter_array_end[OF ctx rnl]) simp
    finally show ?thesis by (simp add: Nil vs array_text_Nil)
  next
    case (Cons t ts')
    with all obtain v vs' where vs: "vs = v # vs'" and tv: "parses_to L t v"
      and all': "list_all2 (parses_to L) ts' vs'"
      by (auto simp: list_all2_Cons1)
    let ?rest = "concat (map (\<lambda>u. CHR '','' # u) ts') @ '']'' @ rest"
    have nl: "LF \<notin> set ?rest"
      using tail_no_LF[where c = "CHR '']''", OF all' rnl] by simp
    have ok: "ok_rest ?rest"
      using nl by (cases ts') (auto simp: ok_rest_def)
    have nl2: "LF \<notin> set (t @ ?rest)"
      using nl parses_to_no_LF[OF tv] by simp
    have "parse_loop L (mk J R (vflags k e) P (''['' @ t @ ?rest) E) =
          parse_loop L (mk J (place k R P (JArray [])) (vflags 2 3) (parents_in k R P) (t @ ?rest) [])"
      by (rule iter_array_begin[OF ctx e' nl2])
    also have "\<dots> = parse_loop L (mk J (place k R P (JArray [v])) (done_flags 2)
            (parents_in k R P) ?rest [])"
      using parses_to_loop[OF tv inner_ctx_array[OF ctx, of "[]"] _ ok, of 3 J "[]"]
      by (simp add: inner_place_array[OF ctx] done_parents_def)
    also have "\<dots> = parse_loop L (mk J (place k R P (JArray ([v] @ vs'))) (done_flags k)
            (done_parents k P) rest [])"
      by (rule array_tail[OF ctx all' rnl])
    finally show ?thesis by (simp add: Cons vs array_text_Cons)
  qed
qed

section \<open>Objects\<close>

text \<open>The text \<^verbatim>\<open>stringify\<close> writes for a map whose members, in the order they are
  written, have the keys and the value texts \<open>kts\<close>.\<close>

definition member_text :: "string \<times> string \<Rightarrow> string" where
  "member_text i = [DQ] @ fEscape (fst i) @ [DQ] @ '':'' @ snd i"

definition object_text :: "(string \<times> string) list \<Rightarrow> string" where
  "object_text kts =
     pop_back_if (length kts \<ge> 1) (''{'' @ concat (map (\<lambda>i. member_text i @ '','') kts)) @ ''}''"

lemma stringify_object:
  "stringify L (JMap m) = object_text (map (\<lambda>i. (fst i, stringify L (snd i))) m)"
  by (simp add: object_text_def member_text_def comp_def)

lemma object_text_Nil: "object_text [] = ''{}''"
  by (simp add: object_text_def pop_back_if_def)

lemma object_text_Cons:
  "object_text (i # kts) = ''{'' @ member_text i @ concat (map (\<lambda>u. CHR '','' # member_text u) kts) @ ''}''"
proof -
  have c: "concat (map (\<lambda>i. member_text i @ '','') (i # kts))
      = member_text i @ concat (map (\<lambda>u. CHR '','' # member_text u) kts) @ '',''"
    using concat_sep[of "CHR '',''" "member_text i" "map member_text kts"]
    by (simp add: comp_def)
  have "butlast (''{'' @ concat (map (\<lambda>i. member_text i @ '','') (i # kts)))
      = ''{'' @ member_text i @ concat (map (\<lambda>u. CHR '','' # member_text u) kts)"
    unfolding c by (simp add: butlast_append)
  then show ?thesis
    by (simp add: object_text_def pop_back_if_def)
qed

text \<open>\<^verbatim>\<open>m[key] = v\<close> on a \<^verbatim>\<open>std::map\<close>.\<close>

definition map_store :: "string \<Rightarrow> 'f JsonT \<Rightarrow> (string \<times> 'f JsonT) list \<Rightarrow> (string \<times> 'f JsonT) list" where
  "map_store key v m = map_assign key v (map_subscript m key)"

definition kflags :: "nat \<Rightarrow> Flags" where
  "kflags e = \<lparr>bFinish = False, bBegin = False, end_f = e, objectKey = 1, value_f = 0\<rparr>"

lemma map_insert_find: "map_of (map_insert key x m) key \<noteq> None"
  by (induction m) auto

lemma member_key_step:
  assumes ctx: "value_ctx k R P" and key: "LF \<notin> set key"
  shows "on_string L (mk J (place k R P (JMap pre)) (kflags e) (parents_in k R P)
            (fEscape key @ DQ # rest) []) =
         Inr (mk J (place k R P (JMap (map_assign key JNull (map_subscript pre key))))
            (flags0\<lparr>objectKey := 2\<rparr>) ((cptr k R P @ [MapElem key]) # parents_in k R P) rest [])"
proof -
  have h: "hd (parents_in k R P) = cptr k R P" using parents_in_hd2[OF ctx] by simp
  have r1: "modify_at (cptr k R P) (\<lambda>p. fst (subscript_key p key)) (place k R P (JMap pre))
      = place k R P (JMap (map_subscript pre key))"
    unfolding modify_place[OF ctx] by (simp add: subscript_key_def ensureMap_def)
  have r2: "modify_at (cptr k R P @ [MapElem key]) clear (place k R P (JMap (map_subscript pre key)))
      = place k R P (JMap (map_assign key JNull (map_subscript pre key)))"
    unfolding modify_at_append modify_place[OF ctx] by (simp add: clear_def)
  show ?thesis
    by (simp add: on_string_def line_mk_Nil decode_string_escaped[OF key] Let_def kflags_def h r1 r2)
qed

lemma member_ctx:
  assumes ctx: "value_ctx k R P"
  shows "value_ctx 1 (place k R P (JMap (map_assign key JNull (map_subscript pre key))))
           ((cptr k R P @ [MapElem key]) # parents_in k R P)"
proof -
  let ?m = "map_assign key JNull (map_subscript pre key)"
  have f: "map_of ?m key = Some JNull"
    by (simp add: map_subscript_def map_assign_find map_insert_find)
  have "parents_in k R P = cptr k R P # tl (parents_in k R P)" by (rule parents_in_hd[OF ctx])
  moreover have "valid_ptr (place k R P (JMap ?m)) (cptr k R P @ [MapElem key])"
    using f by (simp add: valid_ptr_append valid_place[OF ctx] get_at_place[OF ctx])
  moreover have "get_at (place k R P (JMap ?m)) (cptr k R P @ [MapElem key]) = JNull"
    using f by (simp add: get_at_append get_at_place[OF ctx] map_find_def)
  moreover have "type (get_at (place k R P (JMap ?m)) (cptr k R P)) = TypeMap"
    by (simp add: get_at_place[OF ctx])
  ultimately show ?thesis
    unfolding value_ctx_def by (simp del: append_Cons) blast
qed

lemma member_place:
  assumes ctx: "value_ctx k R P"
  shows "place 1 (place k R P (JMap (map_assign key JNull (map_subscript pre key))))
           ((cptr k R P @ [MapElem key]) # parents_in k R P) v
         = place k R P (JMap (map_store key v pre))"
proof -
  have "place 1 (place k R P (JMap (map_assign key JNull (map_subscript pre key))))
           ((cptr k R P @ [MapElem key]) # parents_in k R P) v
      = modify_at (cptr k R P @ [MapElem key]) (\<lambda>x. v)
          (place k R P (JMap (map_assign key JNull (map_subscript pre key))))"
    by (simp add: place_def)
  also have "\<dots> = place k R P (JMap (map_store key v pre))"
    unfolding modify_at_append modify_place[OF ctx]
    by (simp add: map_store_def map_assign_twice)
  finally show ?thesis .
qed

lemma iter_key:
  assumes Pn: "Pin \<noteq> []" and rest: "LF \<notin> set rest"
  shows "parse_iter L (mk J R' (kflags e) Pin ([DQ] @ rest) E) =
         run_handler (on_string L (mk J R' (kflags e) Pin rest []))"
proof -
  have F0: "kflags e \<noteq> flags0" by (simp add: kflags_def flags0_def)
  have nl: "LF \<notin> set ([DQ] @ rest)" using rest by simp
  have fa: "first_alt (token_alts (kflags e)) ([DQ] @ rest) = Some [DQ]"
    by (simp add: first_alt_quote_value kflags_def)
  show ?thesis
    using iter_token[OF F0 Pn nl _ _ fa, of L J R' E]
    by (simp add: mapToken_def isspace_def)
qed

lemma iter_colon:
  assumes Pn: "Pin \<noteq> []" and rest: "LF \<notin> set rest"
  shows "parse_loop L (mk J R' (flags0\<lparr>objectKey := 2\<rparr>) Pin ('':'' @ rest) E) =
         parse_loop L (mk J R' (vflags 1 0) Pin rest [])"
proof -
  have F0: "flags0\<lparr>objectKey := 2\<rparr> \<noteq> flags0" by (simp add: flags0_def)
  have nl: "LF \<notin> set ('':'' @ rest)" using rest by simp
  have fa: "first_alt (token_alts (flags0\<lparr>objectKey := 2\<rparr>)) ('':'' @ rest) = Some '':''"
    by (simp add: flags0_def token_alts_def starts_with_def)
  have "parse_iter L (mk J R' (flags0\<lparr>objectKey := 2\<rparr>) Pin ('':'' @ rest) E) =
      run_handler (on_colon (mk J R' (flags0\<lparr>objectKey := 2\<rparr>) Pin rest []))"
    using iter_token[OF F0 Pn nl _ _ fa, of L J R' E]
    by (simp add: mapToken_def isspace_def)
  then show ?thesis
    by (intro loop_step) (simp add: on_colon_def run_handler_def vflags_def flags0_def)
qed

lemma member_loop:
  assumes ctx: "value_ctx k R P" and key: "LF \<notin> set key" and tv: "parses_to L t v"
    and rest: "ok_rest rest"
  shows "parse_loop L (mk J (place k R P (JMap pre)) (kflags e) (parents_in k R P)
            (member_text (key, t) @ rest) E) =
         parse_loop L (mk J (place k R P (JMap (map_store key v pre))) (done_flags 1)
            (parents_in k R P) rest [])"
proof -
  let ?m = "map_assign key JNull (map_subscript pre key)"
  let ?P2 = "(cptr k R P @ [MapElem key]) # parents_in k R P"
  have Pn: "parents_in k R P \<noteq> []" using parents_in_hd2[OF ctx] by simp
  have nlr: "LF \<notin> set rest" using rest by (simp add: ok_rest_def)
  have nlt: "LF \<notin> set (t @ rest)" using nlr parses_to_no_LF[OF tv] by simp
  have nlk: "LF \<notin> set (fEscape key @ DQ # '':'' @ t @ rest)"
    using nlt fEscape_no_LF[OF key] by simp
  have "parse_iter L (mk J (place k R P (JMap pre)) (kflags e) (parents_in k R P)
            ([DQ] @ fEscape key @ DQ # '':'' @ t @ rest) E) =
        Continue (mk J (place k R P (JMap ?m)) (flags0\<lparr>objectKey := 2\<rparr>) ?P2 ('':'' @ t @ rest) [])"
    unfolding iter_key[OF Pn nlk] member_key_step[OF ctx key]
    by (simp add: run_handler_def)
  from loop_step[OF this]
  have "parse_loop L (mk J (place k R P (JMap pre)) (kflags e) (parents_in k R P)
            (member_text (key, t) @ rest) E) =
        parse_loop L (mk J (place k R P (JMap ?m)) (flags0\<lparr>objectKey := 2\<rparr>) ?P2 ('':'' @ t @ rest) [])"
    by (simp add: member_text_def)
  also have "\<dots> = parse_loop L (mk J (place k R P (JMap ?m)) (vflags 1 0) ?P2 (t @ rest) [])"
    using nlt by (intro iter_colon) simp_all
  also have "\<dots> = parse_loop L (mk J (place 1 (place k R P (JMap ?m)) ?P2 v) (done_flags 1)
            (done_parents 1 ?P2) rest [])"
    by (rule parses_to_loop[OF tv member_ctx[OF ctx] _ rest]) simp
  also have "\<dots> = parse_loop L (mk J (place k R P (JMap (map_store key v pre))) (done_flags 1)
            (parents_in k R P) rest [])"
    unfolding member_place[OF ctx] by (simp add: done_parents_def)
  finally show ?thesis .
qed

text \<open>The members of an object text: key, value text and value.\<close>

definition member_ok :: "'f libm \<Rightarrow> string \<times> string \<times> 'f JsonT \<Rightarrow> bool" where
  "member_ok L i = (LF \<notin> set (fst i) \<and> parses_to L (fst (snd i)) (snd (snd i)))"

definition member_texts :: "(string \<times> string \<times> 'f JsonT) list \<Rightarrow> (string \<times> string) list" where
  "member_texts mems = map (\<lambda>i. (fst i, fst (snd i))) mems"

definition store_all ::
  "(string \<times> 'f JsonT) list \<Rightarrow> (string \<times> 'f JsonT) list \<Rightarrow> (string \<times> 'f JsonT) list" where
  "store_all m kvs = foldl (\<lambda>acc i. map_store (fst i) (snd i) acc) m kvs"

definition member_values :: "(string \<times> string \<times> 'f JsonT) list \<Rightarrow> (string \<times> 'f JsonT) list" where
  "member_values mems = map (\<lambda>i. (fst i, snd (snd i))) mems"

lemma member_text_no_LF: "member_ok L i \<Longrightarrow> LF \<notin> set (member_text (fst i, fst (snd i)))"
  using parses_to_no_LF[of L "fst (snd i)" "snd (snd i)"]
  by (simp add: member_ok_def member_text_def fEscape_no_LF)

lemma members_tail_no_LF:
  assumes "list_all (member_ok L) mems" "LF \<notin> set rest"
  shows "LF \<notin> set (concat (map (\<lambda>u. CHR '','' # member_text u) (member_texts mems)) @ ''}'' @ rest)"
  using assms
  by (induction mems) (auto simp: member_texts_def dest: member_text_no_LF)

lemma members_tail_ok:
  assumes "list_all (member_ok L) mems" "LF \<notin> set rest"
  shows "ok_rest (concat (map (\<lambda>u. CHR '','' # member_text u) (member_texts mems)) @ ''}'' @ rest)"
  using members_tail_no_LF[OF assms]
  by (cases mems) (auto simp: ok_rest_def member_texts_def)

lemma iter_object_end:
  assumes ctx: "value_ctx k R P" and rest: "LF \<notin> set rest"
    and F: "F = done_flags 1 \<or> F = kflags 1"
  shows "parse_loop L (mk J (place k R P (JMap m)) F (parents_in k R P) (''}'' @ rest) E) =
         parse_loop L (mk J (place k R P (JMap m)) (done_flags k) (done_parents k P) rest [])"
proof -
  have F0: "F \<noteq> flags0" using F by (auto simp: done_flags_def kflags_def flags0_def)
  have Pn: "parents_in k R P \<noteq> []" using parents_in_hd2[OF ctx] by simp
  have nl: "LF \<notin> set (''}'' @ rest)" using rest by simp
  have fa: "first_alt (token_alts F) (''}'' @ rest) = Some ''}''"
    using F by (auto simp: done_flags_def flags0_def kflags_def token_alts_def starts_with_def)
  have "parse_iter L (mk J (place k R P (JMap m)) F (parents_in k R P) (''}'' @ rest) E) =
      run_handler (on_object_end (mk J (place k R P (JMap m)) F (parents_in k R P) rest []))"
    using iter_token[OF F0 Pn nl _ _ fa, of L J "place k R P (JMap m)" E]
    by (simp add: mapToken_def isspace_def)
  then show ?thesis
    by (intro loop_step) (simp add: on_object_end_place[OF ctx] run_handler_def)
qed

lemma iter_comma_object:
  assumes Pn: "Pin \<noteq> []" and rest: "LF \<notin> set rest"
  shows "parse_loop L (mk J R' (done_flags 1) Pin ('','' @ rest) E) =
         parse_loop L (mk J R' (kflags 0) Pin rest [])"
proof -
  have F0: "done_flags 1 \<noteq> flags0" by (simp add: done_flags_def flags0_def)
  have nl: "LF \<notin> set ('','' @ rest)" using rest by simp
  have fa: "first_alt (token_alts (done_flags 1)) ('','' @ rest) = Some '',''"
    by (simp add: done_flags_def flags0_def token_alts_def starts_with_def)
  have "parse_iter L (mk J R' (done_flags 1) Pin ('','' @ rest) E) =
      run_handler (on_comma (mk J R' (done_flags 1) Pin rest []))"
    using iter_token[OF F0 Pn nl _ _ fa, of L J R' E]
    by (simp add: mapToken_def isspace_def)
  then show ?thesis
    by (intro loop_step) (simp add: on_comma_def done_flags_def run_handler_def kflags_def flags0_def)
qed

lemma object_tail:
  assumes ctx: "value_ctx k R P" and all: "list_all (member_ok L) mems" and rest: "LF \<notin> set rest"
  shows "parse_loop L (mk J (place k R P (JMap pre)) (done_flags 1) (parents_in k R P)
            (concat (map (\<lambda>u. CHR '','' # member_text u) (member_texts mems)) @ ''}'' @ rest) E) =
         parse_loop L (mk J (place k R P (JMap (store_all pre (member_values mems)))) (done_flags k)
            (done_parents k P) rest [])"
  using all
proof (induction mems arbitrary: pre E)
  case Nil
  show ?case
    using iter_object_end[OF ctx rest, of "done_flags 1" L J pre E]
    by (simp add: member_texts_def member_values_def store_all_def)
next
  case (Cons i mems)
  obtain key t v where i: "i = (key, t, v)" by (cases i) auto
  from Cons.prems i have key: "LF \<notin> set key" and tv: "parses_to L t v"
    and all': "list_all (member_ok L) mems"
    by (simp_all add: member_ok_def[abs_def])
  let ?rest = "concat (map (\<lambda>u. CHR '','' # member_text u) (member_texts mems)) @ ''}'' @ rest"
  have Pn: "parents_in k R P \<noteq> []" using parents_in_hd2[OF ctx] by simp
  have ok: "ok_rest ?rest" by (rule members_tail_ok[OF all' rest])
  have nl: "LF \<notin> set (member_text (key, t) @ ?rest)"
    using members_tail_no_LF[OF all' rest] member_text_no_LF[of L i] Cons.prems i by simp
  have "parse_loop L (mk J (place k R P (JMap pre)) (done_flags 1) (parents_in k R P)
            (concat (map (\<lambda>u. CHR '','' # member_text u) (member_texts (i # mems))) @ ''}'' @ rest) E) =
        parse_loop L (mk J (place k R P (JMap pre)) (kflags 0) (parents_in k R P)
            (member_text (key, t) @ ?rest) [])"
    using iter_comma_object[OF Pn nl, of L J "place k R P (JMap pre)" E]
    by (simp add: member_texts_def i)
  also have "\<dots> = parse_loop L (mk J (place k R P (JMap (map_store key v pre))) (done_flags 1)
            (parents_in k R P) ?rest [])"
    by (rule member_loop[OF ctx key tv ok])
  also have "\<dots> = parse_loop L (mk J (place k R P (JMap (store_all (map_store key v pre) (member_values mems))))
            (done_flags k) (done_parents k P) rest [])"
    by (rule Cons.IH[OF all'])
  finally show ?case
    by (simp add: store_all_def member_values_def i)
qed

lemma iter_object_begin:
  assumes ctx: "value_ctx k R P" and e: "e = 0 \<or> e = 3" and rest: "LF \<notin> set rest"
  shows "parse_loop L (mk J R (vflags k e) P (''{'' @ rest) E) =
         parse_loop L (mk J (place k R P (JMap [])) (kflags 1) (parents_in k R P) rest [])"
proof -
  have k: "k \<noteq> 0" using value_ctx_cases[OF ctx] by auto
  have nl: "LF \<notin> set (''{'' @ rest)" using rest by simp
  have fa: "first_alt (token_alts (vflags k e)) (''{'' @ rest) = Some ''{''"
    using k e by (auto simp: vflags_def token_alts_def starts_with_def)
  have "parse_iter L (mk J R (vflags k e) P (''{'' @ rest) E) =
      run_handler (on_object_begin (mk J R (vflags k e) P rest []))"
    using iter_token[OF vflags_not_flags0 value_ctx_parents[OF ctx] nl _ _ fa, of L J R E]
    by (simp add: mapToken_def isspace_def)
  then show ?thesis
    by (intro loop_step)
      (simp add: on_object_begin_def kflags_def flags0_def on_begin_place[OF ctx] run_handler_def ensureMap_def)
qed

lemma parses_to_Object:
  assumes all: "list_all (member_ok L) mems"
  shows "parses_to L (object_text (member_texts mems)) (JMap (store_all [] (member_values mems)))"
  unfolding parses_to_def
proof (intro conjI allI impI)
  have "LF \<notin> set (concat (map (\<lambda>u. CHR '','' # member_text u) (member_texts mems)) @ ''}'' @ [])"
    by (rule members_tail_no_LF[OF all]) simp
  then show "LF \<notin> set (object_text (member_texts mems))"
    using all
    by (cases mems) (auto simp: object_text_Nil object_text_Cons member_texts_def dest: member_text_no_LF)
  fix J and R :: "'a JsonT" and P rest E k e
  assume ctx: "value_ctx k R P" and e: "e \<in> {0::nat, 3}" and rest: "ok_rest rest"
  have e': "e = 0 \<or> e = 3" using e by auto
  have rnl: "LF \<notin> set rest" using rest by (simp add: ok_rest_def)
  show "parse_loop L (mk J R (vflags k e) P (object_text (member_texts mems) @ rest) E) =
        parse_loop L (mk J (place k R P (JMap (store_all [] (member_values mems)))) (done_flags k)
          (done_parents k P) rest [])"
  proof (cases mems)
    case Nil
    have "parse_loop L (mk J R (vflags k e) P (''{'' @ ''}'' @ rest) E) =
          parse_loop L (mk J (place k R P (JMap [])) (kflags 1) (parents_in k R P) (''}'' @ rest) [])"
      using rnl by (intro iter_object_begin[OF ctx e']) simp
    also have "\<dots> = parse_loop L (mk J (place k R P (JMap [])) (done_flags k) (done_parents k P) rest [])"
      by (rule iter_object_end[OF ctx rnl]) simp
    finally show ?thesis
      by (simp add: Nil object_text_Nil member_texts_def member_values_def store_all_def)
  next
    case (Cons i mems')
    obtain key t v where i: "i = (key, t, v)" by (cases i) auto
    from all Cons i have key: "LF \<notin> set key" and tv: "parses_to L t v"
      and all': "list_all (member_ok L) mems'"
      by (simp_all add: member_ok_def)
    let ?rest = "concat (map (\<lambda>u. CHR '','' # member_text u) (member_texts mems')) @ ''}'' @ rest"
    have ok: "ok_rest ?rest" by (rule members_tail_ok[OF all' rnl])
    have nl: "LF \<notin> set (member_text (key, t) @ ?rest)"
      using members_tail_no_LF[OF all' rnl] member_text_no_LF[of L i] all Cons i by simp
    have "parse_loop L (mk J R (vflags k e) P (''{'' @ member_text (key, t) @ ?rest) E) =
          parse_loop L (mk J (place k R P (JMap [])) (kflags 1) (parents_in k R P)
            (member_text (key, t) @ ?rest) [])"
      by (rule iter_object_begin[OF ctx e' nl])
    also have "\<dots> = parse_loop L (mk J (place k R P (JMap (map_store key v []))) (done_flags 1)
            (parents_in k R P) ?rest [])"
      by (rule member_loop[OF ctx key tv ok])
    also have "\<dots> = parse_loop L (mk J (place k R P (JMap (store_all (map_store key v []) (member_values mems'))))
            (done_flags k) (done_parents k P) rest [])"
      by (rule object_tail[OF ctx all' rnl])
    finally show ?thesis
      by (simp add: Cons i object_text_Cons member_texts_def member_values_def store_all_def)
  qed
qed

section \<open>Numbers as values\<close>

lemma takeWhile_is_digits: "takeWhile isdigit s \<noteq> [] \<Longrightarrow> is_digits (takeWhile isdigit s)"
  by (auto simp: is_digits_def list_all_iff dest: set_takeWhileD)

lemma match_fraction_is_fraction: "is_fraction (match_fraction s)"
  by (cases s) (auto simp: match_fraction_def is_fraction_def list_all_iff dest: set_takeWhileD)

lemma match_exponent_is_exponent: "is_exponent (match_exponent s)"
proof (cases s)
  case Nil
  then show ?thesis by (simp add: match_exponent_def is_exponent_def)
next
  case (Cons e r)
  define sg where "sg = (if starts_with ''+'' r \<or> starts_with ''-'' r then take 1 r else [])"
  define es where "es = takeWhile isdigit (drop (length sg) r)"
  have m: "match_exponent s =
      (if e = CHR ''e'' \<or> e = CHR ''E'' then if es = [] then [] else e # sg @ es else [])"
    by (simp add: match_exponent_def Cons sg_def es_def Let_def)
  show ?thesis
  proof (cases "(e = CHR ''e'' \<or> e = CHR ''E'') \<and> es \<noteq> []")
    case False
    then show ?thesis unfolding m by (auto simp: is_exponent_def)
  next
    case True
    then have es: "is_digits es" unfolding es_def by (intro takeWhile_is_digits) simp
    then obtain d dt where d: "es = d # dt" "isdigit d" by (cases es) (auto simp: is_digits_def)
    have "sg = [] \<or> sg = ''+'' \<or> sg = ''-''"
      unfolding sg_def by (cases r) (auto simp: starts_with_def)
    then have "is_digits (if starts_with ''+'' (sg @ es) \<or> starts_with ''-'' (sg @ es)
                          then tl (sg @ es) else sg @ es)"
      using es d isdigit_not(4,5)[OF d(2)] by (auto simp: starts_with_def)
    then show ?thesis
      unfolding m using True by (simp add: is_exponent_def split del: if_split cong: if_cong)
  qed
qed

lemma match_number_shape:
  assumes "match_number s = Some t"
  shows "\<exists>sg ds fr ex. t = sg @ ds @ fr @ ex \<and> is_sign sg \<and> is_digits ds \<and> is_fraction fr \<and> is_exponent ex"
proof -
  define sg where "sg = (if starts_with ''-'' s then ''-'' else [])"
  define ds where "ds = takeWhile isdigit (drop (length sg) s)"
  define fr where "fr = match_fraction (drop (length (sg @ ds)) s)"
  define ex where "ex = match_exponent (drop (length (sg @ ds @ fr)) s)"
  have m: "match_number s = (if ds = [] then None else Some (sg @ ds @ fr @ ex))"
    by (simp add: match_number_def sg_def ds_def fr_def ex_def Let_def)
  from assms have ne: "ds \<noteq> []" and t: "t = sg @ ds @ fr @ ex"
    unfolding m by (auto split: if_splits)
  have "is_sign sg" by (simp add: sg_def is_sign_def)
  moreover have "is_digits ds" using ne unfolding ds_def by (rule takeWhile_is_digits)
  moreover have "is_fraction fr" unfolding fr_def by (rule match_fraction_is_fraction)
  moreover have "is_exponent ex" unfolding ex_def by (rule match_exponent_is_exponent)
  ultimately show ?thesis using t by blast
qed

lemma parses_to_number:
  assumes sg: "is_sign sg" and ds: "is_digits ds" and fr: "is_fraction fr" and ex: "is_exponent ex"
    and nv: "number_value L (sg @ ds @ fr @ ex) = Some v"
  shows "parses_to L (sg @ ds @ fr @ ex) v"
  unfolding parses_to_def
proof (intro conjI allI impI)
  show "LF \<notin> set (sg @ ds @ fr @ ex)"
    by (rule number_tokens_no_LF[OF sg ds fr ex])
  fix J and R :: "'a JsonT" and P rest E k e
  assume ctx: "value_ctx k R P" and e: "e \<in> {0::nat, 3}" and rest: "ok_rest rest"
  have k: "k \<noteq> 0" using value_ctx_cases[OF ctx] by auto
  have "parse_iter L (mk J R (vflags k e) P ((sg @ ds @ fr @ ex) @ rest) E) =
     (case number_value L (sg @ ds @ fr @ ex) of
        None \<Rightarrow> Throw (ParseException (length J - length rest))
      | Some v \<Rightarrow> run_handler (setValue v (mk J R (vflags k e) P rest [])))"
    using rest k
    by (intro iter_number_token[OF sg ds fr ex ok_rest_num_delim _ _ _ value_ctx_parents[OF ctx]])
      (simp_all add: ok_rest_def vflags_def)
  then have "parse_iter L (mk J R (vflags k e) P ((sg @ ds @ fr @ ex) @ rest) E) =
      Continue (mk J (place k R P v) (done_flags k) (done_parents k P) rest [])"
    unfolding nv by (simp add: setValue_place[OF ctx] run_handler_def)
  then show "parse_loop L (mk J R (vflags k e) P ((sg @ ds @ fr @ ex) @ rest) E) =
      parse_loop L (mk J (place k R P v) (done_flags k) (done_parents k P) rest [])"
    by (rule loop_step)
qed

text \<open>A double that \<^verbatim>\<open>std::to_string\<close> writes as a JSON number which \<^verbatim>\<open>std::stod\<close> reads back
  as the same double.\<close>

definition prints_exactly :: "'f libm \<Rightarrow> 'f \<Rightarrow> bool" where
  "prints_exactly L f =
     (match_number (to_string_d L f) = Some (to_string_d L f)
      \<and> number_value L (to_string_d L f) = Some (JFloat f))"

lemma parses_to_Float:
  assumes "prints_exactly L f"
  shows "parses_to L (to_string_d L f) (JFloat f)"
proof -
  from assms have m: "match_number (to_string_d L f) = Some (to_string_d L f)"
    and nv: "number_value L (to_string_d L f) = Some (JFloat f)"
    by (simp_all add: prints_exactly_def)
  from match_number_shape[OF m] obtain sg ds fr ex where
    t: "to_string_d L f = sg @ ds @ fr @ ex" and
    s: "is_sign sg" "is_digits ds" "is_fraction fr" "is_exponent ex"
    by blast
  show ?thesis
    unfolding t using nv by (intro parses_to_number[OF s]) (simp add: t)
qed

section \<open>The map an object is parsed into\<close>

lemma map_insert_append:
  "\<forall>k' \<in> fst ` set m. k' < k \<Longrightarrow> map_insert k x m = m @ [(k, x)]"
  by (induction m) auto

lemma map_assign_append:
  "k \<notin> fst ` set m \<Longrightarrow> map_assign k v (m @ [(k, x)]) = m @ [(k, v)]"
  by (induction m) auto

lemma map_store_append:
  assumes "\<forall>k' \<in> fst ` set m. k' < k"
  shows "map_store k v m = m @ [(k, v)]"
proof -
  have "k \<notin> fst ` set m" using assms by auto
  then show ?thesis
    by (simp add: map_store_def map_subscript_def map_insert_append[OF assms] map_assign_append)
qed

lemma store_all_sorted: "map_ok (pre @ m) \<Longrightarrow> store_all pre m = pre @ m"
proof (induction m arbitrary: pre)
  case Nil
  then show ?case by (simp add: store_all_def)
next
  case (Cons i m)
  obtain k v where i: "i = (k, v)" by (cases i)
  from Cons.prems have "\<forall>k' \<in> fst ` set pre. k' \<le> k" "k \<notin> fst ` set pre"
    by (auto simp: map_ok_def i sorted_append)
  then have "\<forall>k' \<in> fst ` set pre. k' < k" by (metis order_le_imp_less_or_eq)
  then have st: "map_store k v pre = pre @ [(k, v)]" by (rule map_store_append)
  have "store_all (pre @ [(k, v)]) m = (pre @ [(k, v)]) @ m"
    using Cons.prems by (intro Cons.IH) (simp add: i)
  then show ?case
    by (simp add: store_all_def i st)
qed

lemma map_ok_strict: "map_ok m = sorted_wrt (<) (map fst m)"
  by (simp add: map_ok_def strict_sorted_iff)

lemma map_insert_keys:
  "map_ok m \<Longrightarrow> map_ok (map_insert k x m) \<and> fst ` set (map_insert k x m) = insert k (fst ` set m)"
  unfolding map_ok_strict
proof (induction m)
  case Nil
  then show ?case by simp
next
  case (Cons i m)
  obtain k' v' where i: "i = (k', v')" by (cases i)
  from Cons.prems have ok: "sorted_wrt (<) (map fst m)" and lt: "\<forall>y \<in> fst ` set m. k' < y"
    by (auto simp: i)
  note IH = Cons.IH[OF ok]
  consider "k < k'" | "k = k'" | "k' < k" by (rule linorder_cases)
  then show ?case
  proof cases
    case 1
    then have "\<forall>y \<in> fst ` set m. k < y" using lt by (meson less_trans)
    then show ?thesis using 1 ok lt by (auto simp: i)
  next
    case 2
    then show ?thesis using ok lt by (auto simp: i)
  next
    case 3
    then have n: "\<not> k < k'" "k \<noteq> k'" by (simp_all add: less_not_sym)
    have "map_insert k x (i # m) = (k', v') # map_insert k x m"
      using n by (simp add: i)
    then show ?thesis using IH lt 3 by (auto simp: i)
  qed
qed

lemma map_of_map_insert:
  "map_ok m \<Longrightarrow> map_of (map_insert k x m) = (if k \<in> fst ` set m then map_of m else (map_of m)(k \<mapsto> x))"
proof (induction m)
  case Nil
  then show ?case by simp
next
  case (Cons i m)
  obtain k' v' where i: "i = (k', v')" by (cases i)
  from Cons.prems have ok: "map_ok m" and lt: "\<forall>y \<in> fst ` set m. k' < y"
    by (auto simp: map_ok_def i order_le_less)
  show ?case
  proof (cases "k < k'")
    case True
    then have "k \<notin> fst ` set (i # m)" using lt by (auto simp: i)
    then show ?thesis using True by (simp add: i)
  next
    case False
    show ?thesis
    proof (cases "k = k'")
      case True
      then show ?thesis by (simp add: i)
    next
      case ne: False
      then show ?thesis
        using False Cons.IH[OF ok] by (auto simp: i fun_eq_iff)
    qed
  qed
qed

lemma map_assign_keys: "map fst (map_assign k v m) = map fst m"
  by (induction m) auto

lemma map_of_map_assign:
  "map_of (map_assign k v m) = (if k \<in> fst ` set m then (map_of m)(k \<mapsto> v) else map_of m)"
proof (induction m)
  case Nil
  then show ?case by simp
next
  case (Cons i m)
  obtain k' v' where i: "i = (k', v')" by (cases i)
  show ?case
  proof (cases "k' = k")
    case True
    then show ?thesis by (simp add: i)
  next
    case False
    then have "k \<in> fst ` set (i # m) \<longleftrightarrow> k \<in> fst ` set m" by (auto simp: i)
    then show ?thesis using False Cons.IH by (auto simp: i fun_eq_iff)
  qed
qed

lemma map_store_ok:
  assumes "map_ok m"
  shows "map_ok (map_store k v m)" "map_of (map_store k v m) = (map_of m)(k \<mapsto> v)"
proof -
  note ins = map_insert_keys[OF assms, of k JNull]
  show "map_ok (map_store k v m)"
    using ins by (simp add: map_store_def map_subscript_def map_ok_def map_assign_keys)
  have "k \<in> fst ` set (map_insert k JNull m)" using ins by blast
  then show "map_of (map_store k v m) = (map_of m)(k \<mapsto> v)"
    by (simp add: map_store_def map_subscript_def map_of_map_assign map_of_map_insert[OF assms]
        fun_eq_iff)
qed

lemma store_all_ok:
  "map_ok m \<Longrightarrow> map_ok (store_all m kvs) \<and> map_of (store_all m kvs) = map_of m ++ map_of (rev kvs)"
proof (induction kvs arbitrary: m)
  case Nil
  then show ?case by (simp add: store_all_def)
next
  case (Cons i kvs)
  obtain k v where i: "i = (k, v)" by (cases i)
  note st = map_store_ok[OF Cons.prems, of k v]
  from Cons.IH[OF st(1)] show ?case
    by (simp add: store_all_def i st(2) map_add_upd_left fun_eq_iff map_add_def split: option.splits)
qed

section \<open>The values that stringify writes and parse reads back\<close>

text \<open>\<open>maps_ok\<close>: every Map of the tree is a \<^verbatim>\<open>std::map\<close>, its keys ascending and distinct.\<close>

fun maps_ok :: "'f JsonT \<Rightarrow> bool" where
  "maps_ok (JArray a) = list_all maps_ok a"
| "maps_ok (JMap m) = (map_ok m \<and> list_all (\<lambda>i. maps_ok (snd i)) m)"
| "maps_ok v = True"

text \<open>\<open>reparsable\<close>: no String and no key of the tree holds a line feed, and every Float of
  the tree is one that is printed exactly.\<close>

fun reparsable :: "'f libm \<Rightarrow> 'f JsonT \<Rightarrow> bool" where
  "reparsable L (JFloat f) = prints_exactly L f"
| "reparsable L (JString s) = (LF \<notin> set s)"
| "reparsable L (JArray a) = list_all (reparsable L) a"
| "reparsable L (JMap m) = list_all (\<lambda>i. LF \<notin> set (fst i) \<and> reparsable L (snd i)) m"
| "reparsable L v = True"

lemma stringify_parses_to:
  "maps_ok v \<Longrightarrow> reparsable L v \<Longrightarrow> parses_to L (stringify L v) v"
proof (induction v)
  case JNull
  show ?case using parses_to_null by simp
next
  case (JBool b)
  show ?case using parses_to_true parses_to_false by (cases b) simp_all
next
  case (JFloat f)
  then show ?case using parses_to_Float by simp
next
  case (JInt i)
  show ?case using parses_to_Int by simp
next
  case (JString s)
  then show ?case using parses_to_String by simp
next
  case (JArray a)
  have "list_all2 (parses_to L) (map (stringify L) a) a"
    using JArray by (simp add: list_all2_map1 list_all2_same list_all_iff)
  then show ?case
    unfolding stringify_array by (rule parses_to_Array)
next
  case (JMap m)
  define mems where "mems = map (\<lambda>i. (fst i, stringify L (snd i), snd i)) m"
  have t: "member_texts mems = map (\<lambda>i. (fst i, stringify L (snd i))) m"
    by (simp add: member_texts_def mems_def comp_def)
  have v: "member_values mems = m"
    by (simp add: member_values_def mems_def comp_def)
  have "\<forall>i \<in> set m. LF \<notin> set (fst i) \<and> parses_to L (stringify L (snd i)) (snd i)"
  proof
    fix i assume i: "i \<in> set m"
    obtain k x where kx: "i = (k, x)" by (cases i)
    have "maps_ok x" "reparsable L x"
      using JMap.prems i by (auto simp: kx list_all_iff)
    then have "parses_to L (stringify L x) x"
      using JMap.IH[of i x] i by (simp add: kx)
    then show "LF \<notin> set (fst i) \<and> parses_to L (stringify L (snd i)) (snd i)"
      using JMap.prems(2) i by (auto simp: kx list_all_iff)
  qed
  then have "list_all (member_ok L) mems"
    by (simp add: mems_def list_all_iff member_ok_def)
  from parses_to_Object[OF this] have "parses_to L (stringify L (JMap m)) (JMap (store_all [] m))"
    unfolding t v stringify_object .
  moreover have "store_all [] m = m"
    using JMap.prems(1) store_all_sorted[of "[]" m] by simp
  ultimately show ?case by simp
qed

lemma parse_value_text:
  assumes "parses_to L t v"
  shows "parse L t opt = Inr v"
proof -
  have ctx: "value_ctx 3 (JNull :: 'a JsonT) [[]]"
    by (simp add: value_ctx_def)
  have "parse_loop L (mk t JNull (vflags 3 0) [[]] (t @ []) []) =
        parse_loop L (mk t (place 3 JNull [[]] v) (done_flags 3) (done_parents 3 [[]]) [] [])"
    by (rule parses_to_loop[OF assms ctx]) (simp_all add: ok_rest_def)
  then show ?thesis
    by (simp add: parse_def State_init_mk loop_finish done_parents_def place_def)
qed

section \<open>The claims\<close>

text \<open>C1 (as amended). For a tree whose Maps are \<^verbatim>\<open>std::map\<close>s (keys ascending and distinct),
  whose Strings and keys hold no line feed and whose Floats are printed exactly, \<^verbatim>\<open>parse\<close>
  of the text \<^verbatim>\<open>stringify\<close> writes succeeds and returns the tree itself. (The claim said so
  for every tree.)\<close>

theorem parse_stringify_roundtrip:
  assumes "maps_ok v" and "reparsable L v"
  shows "parse L (stringify L v) opt = Inr v"
  by (rule parse_value_text[OF stringify_parses_to[OF assms]])

text \<open>C1, a witness: a Map of an Array with a value of every scalar kind and of an empty Map.\<close>

theorem parse_stringify_roundtrip_witness:
  "maps_ok (JMap [(''a'', JArray [JNull, JBool True, JInt (- 12), JFloat (), JString ''x/y'']),
                  (''b'', JMap [])])
   \<and> reparsable L0 (JMap [(''a'', JArray [JNull, JBool True, JInt (- 12), JFloat (), JString ''x/y'']),
                  (''b'', JMap [])])
   \<and> parse L0 (stringify L0 (JMap [(''a'', JArray [JNull, JBool True, JInt (- 12), JFloat (), JString ''x/y'']),
                  (''b'', JMap [])])) ParseOptions_init
      = Inr (JMap [(''a'', JArray [JNull, JBool True, JInt (- 12), JFloat (), JString ''x/y'']),
                  (''b'', JMap [])])"
  using parse_stringify_roundtrip [of
      "JMap [(''a'', JArray [JNull, JBool True, JInt (- 12), JFloat (), JString ''x/y'']), (''b'', JMap [])]"
      L0 ParseOptions_init]
  by (simp add: map_ok_def prints_exactly_def match_number_def match_fraction_def
      match_exponent_def starts_with_def number_value_def is_integer_token_def stod_def
      strtod_converts_def isdigit_def isspace_def L0_def Let_def)

text \<open>C1, the counterexample: the String that is one line feed is written as a quote, the
  line feed and a quote (\<^verbatim>\<open>fEscape\<close> has no entry for the line feed), and \<^verbatim>\<open>parse\<close> of that
  text throws ParseException at offset 1: the string expression does not match across the
  end of a line.\<close>

theorem parse_stringify_linefeed_counterexample:
  "stringify L0 (JString [LF]) = [DQ, LF, DQ]
   \<and> parse L0 (stringify L0 (JString [LF])) ParseOptions_init = Inl (ParseException 1)"
  by (simp add: fEscape_def fEscape_tbl_def replace_all.simps parse_eval)

text \<open>C2. The claim: a text with a comment parses when \<^verbatim>\<open>comment\<close> (allowComments) is true and
  raises ParseException when it is false. The body of \<^verbatim>\<open>parse\<close> never reads its options: the
  comment alternatives are always the first two of the token expression. With the option
  off, the text of the specification still parses to the map with \<open>a\<close> bound to 1.\<close>

theorem parse_ignores_comment_option:
  "parse L ''{ /* c */ \"a\":1 }'' \<lparr>comment = False\<rparr> = Inr (JMap [(''a'', JInt 1)])"
  by (simp add: parse_eval)

text \<open>C3 (as amended). Move construction and move assignment give the destination the
  value of the source and leave the source with the tag it had: the source is Null
  afterwards exactly when it was Null before. (The claim said the source is always left
  Null.)\<close>

theorem move_keeps_source_tag:
  "fst (move_construct rs rm v) = v
   \<and> type (snd (move_construct rs rm v)) = type v
   \<and> isNull (snd (move_construct rs rm v)) = isNull v
   \<and> fst (move_assign rs rm same this v) = v
   \<and> type (snd (move_assign rs rm same this v)) = type v
   \<and> isNull (snd (move_assign rs rm same this v)) = isNull v"
  by (cases v) (simp_all add: move_assign_def isNull_def isType_def)

text \<open>C3, the counterexample: a Bool that has been moved from, by the constructor or by the
  assignment, is not Null.\<close>

theorem move_source_not_null_counterexample:
  "\<not> isNull (snd (move_construct [] [] (JBool True :: unit JsonT)))
   \<and> \<not> isNull (snd (move_assign [] [] False JNull (JBool True :: unit JsonT)))"
  by (simp add: isNull_def isType_def move_assign_def)

text \<open>C4. \<^verbatim>\<open>at(key)\<close> throws \<^verbatim>\<open>out_of_range\<close> exactly when the const \<^verbatim>\<open>operator[](key)\<close>
  returns the reference to the shared \<^verbatim>\<open>m_emptyJson\<close>, and otherwise returns the very reference
  the operator returns; the operator returns a child exactly when the receiver is a Map
  that has the key. The same holds for \<^verbatim>\<open>at(index)\<close>, an Array and an index below its
  length.\<close>

theorem at_throws_iff_subscript_default:
  "at_key v k = (if subscript_key_const v k = EmptyJson then Inl out_of_range
                 else Inr (subscript_key_const v k))
   \<and> (subscript_key_const v k \<noteq> EmptyJson) = (type v = TypeMap \<and> map_find (get_Map v) k \<noteq> None)
   \<and> at_index v i = (if subscript_index_const v i = EmptyJson then Inl out_of_range
                      else Inr (subscript_index_const v i))
   \<and> (subscript_index_const v i \<noteq> EmptyJson) = (type v = TypeArray \<and> i < length (get_Array v))"
  by (cases v)
    (auto simp: at_key_def subscript_key_const_def at_index_def subscript_index_const_def
      map_find_def split: option.splits)

text \<open>C5. The coercion table of \<^verbatim>\<open>get<U>\<close>. Every overload is a total function (none returns
  an exception). \<^verbatim>\<open>get<bool>\<close>: the stored value of a Bool, false otherwise.
  \<^verbatim>\<open>get<double>\<close>: the stored value of a Float, the cast of an Int, 0.0 otherwise.
  \<^verbatim>\<open>get<intmax_t>\<close>: 0 or 1 for a Bool, the stored value of an Int, \<^verbatim>\<open>llroundl\<close> (round to
  nearest) of a Float, 0 otherwise; for a narrower integer type the 64-bit result is cast
  to it. \<^verbatim>\<open>get<string>\<close>, \<^verbatim>\<open>get<Array>\<close>, \<^verbatim>\<open>get<Map>\<close>: the payload of a matching kind, the empty
  default otherwise.\<close>

theorem get_coercion_table:
  "get_bool (JBool b) = b
   \<and> (type v \<noteq> TypeBool \<longrightarrow> get_bool v = False)
   \<and> get_double L (JFloat f) = f
   \<and> get_double L (JInt i) = itod L i
   \<and> (type v \<noteq> TypeFloat \<and> type v \<noteq> TypeInt \<longrightarrow> get_double L v = zero_d L)
   \<and> (get_integer L (JBool b) :: intmax_t) = (if b then 1 else 0)
   \<and> (get_integer L (JInt i) :: intmax_t) = i
   \<and> (get_integer L (JFloat f) :: intmax_t) = llroundl L f
   \<and> (type v \<noteq> TypeBool \<and> type v \<noteq> TypeInt \<and> type v \<noteq> TypeFloat
        \<longrightarrow> (get_integer L v :: intmax_t) = 0)
   \<and> (get_integer L (JInt i) :: 'a::len word) = ucast i
   \<and> (get_integer L (JFloat f) :: 'a::len word) = ucast (llroundl L f)
   \<and> get_string (JString s) = s
   \<and> (type v \<noteq> TypeString \<longrightarrow> get_string v = [])
   \<and> get_Array (JArray a) = a
   \<and> (type v \<noteq> TypeArray \<longrightarrow> get_Array v = [])
   \<and> get_Map (JMap m) = m
   \<and> (type v \<noteq> TypeMap \<longrightarrow> get_Map v = [])"
  by (cases v) simp_all

text \<open>C5, a witness: the table at the Null value, which takes every default.\<close>

theorem get_coercion_table_witness:
  "type (JNull :: unit JsonT) \<noteq> TypeBool \<and> type (JNull :: unit JsonT) \<noteq> TypeFloat
   \<and> type (JNull :: unit JsonT) \<noteq> TypeInt \<and> type (JNull :: unit JsonT) \<noteq> TypeString
   \<and> type (JNull :: unit JsonT) \<noteq> TypeArray \<and> type (JNull :: unit JsonT) \<noteq> TypeMap
   \<and> get_bool (JNull :: unit JsonT) = False
   \<and> get_double L0 JNull = zero_d L0
   \<and> (get_integer L0 JNull :: intmax_t) = 0
   \<and> get_string (JNull :: unit JsonT) = []
   \<and> get_Array (JNull :: unit JsonT) = []
   \<and> get_Map (JNull :: unit JsonT) = []
   \<and> (get_integer L0 (JInt 1) :: intmax_t) = 1
   \<and> get_bool (JBool True :: unit JsonT)"
  using get_coercion_table [of True JNull L0 "()" 1 "[]" "[]" "[]", where ?'a = 64]
  by simp

text \<open>C6. A number token is a sign, digits, a fraction and an exponent, of which only the
  digits have to be there. Parsed alone, it gives the Int of its value when it has neither
  fraction nor exponent and the value fits \<^verbatim>\<open>intmax_t\<close>; every other token goes to \<^verbatim>\<open>stod\<close> and
  gives the Float \<^verbatim>\<open>stod\<close> returns (when \<^verbatim>\<open>stod\<close> throws, the token is not accepted: \<^verbatim>\<open>parse\<close>
  throws ParseException). A text that starts with \<^verbatim>\<open>+\<close> is rejected at offset 0.\<close>

theorem number_token_classification:
  assumes "is_sign sg" "is_digits ds" "is_fraction fr" "is_exponent ex"
  shows "parse L (sg @ ds @ fr @ ex) opt =
     (let n = (if sg = ''-'' then - int (dec_val ds) else int (dec_val ds))
      in if fr = [] \<and> ex = [] \<and> - (2 ^ 63) \<le> n \<and> n < 2 ^ 63 then Inr (JInt (word_of_int n))
         else (case strtod_value L (sg @ ds @ fr @ ex) of
                 None \<Rightarrow> Inl (ParseException (length (sg @ ds @ fr @ ex)))
               | Some d \<Rightarrow> Inr (JFloat d)))
   \<and> parse L (CHR ''+'' # s) opt = Inl (ParseException 0)"
  using parse_number_token[OF assms, of L opt] number_value_token[OF assms, of L] parse_plus[of L s opt]
  by (auto simp: Let_def split: option.splits)

text \<open>C6, a witness: \<^verbatim>\<open>1\<close> is the Int 1, which \<^verbatim>\<open>get<intmax_t>\<close> reads as 1, \<^verbatim>\<open>1.0\<close> is a Float and
  \<^verbatim>\<open>+1\<close> is rejected.\<close>

theorem number_token_classification_witness:
  "is_sign [] \<and> is_digits ''1'' \<and> is_fraction [] \<and> is_fraction ''.0'' \<and> is_exponent []
   \<and> parse L0 ''1'' ParseOptions_init = Inr (JInt 1)
   \<and> (get_integer L0 (JInt 1) :: intmax_t) = 1
   \<and> parse L0 ''1.0'' ParseOptions_init = Inr (JFloat ())
   \<and> parse L0 ''+1'' ParseOptions_init = Inl (ParseException 0)"
  using number_token_classification [of "[]" "''1''" "[]" "[]" L0 ParseOptions_init "''1''"]
    number_token_classification [of "[]" "''1''" "''.0''" "[]" L0 ParseOptions_init "''1''"]
  by (simp add: is_sign_def is_digits_def is_fraction_def is_exponent_def isdigit_def
      dec_val_def digit_val_def L0_def)

text \<open>C7. The claim: \<^verbatim>\<open>at(pointer)\<close> throws \<^verbatim>\<open>out_of_range\<close> when a step addresses an index
  out of bounds. The index of a digit token is read with \<^verbatim>\<open>get<int>()\<close>, which keeps the
  low 32 bits: index 4294967296 of a two-element array reads as index 0 and the call
  returns the first element.\<close>

theorem at_pointer_index_wraps:
  "at_pointer L (JMap [(''a'', JArray [JInt 10, JInt 20])]) ''/a/4294967296'' = Inr (JInt 10)"
  by (simp add: pointer_eval parse_eval)


text \<open>C9. The text of an object with the members \<open>kvs\<close>, in the order they are written and
  with any key written any number of times, parses to the Map that the assignments
  \<^verbatim>\<open>m[key] = value\<close> build when done in that order. It is a \<^verbatim>\<open>std::map\<close>, and it binds every key
  to the value of the last member with that key: \<open>map_of (rev kvs)\<close> finds the last pair of
  \<open>kvs\<close> with the key. (Keys without line feed; the member values are trees as in C1,
  written as \<^verbatim>\<open>stringify\<close> writes them.)\<close>

theorem duplicate_key_last_wins:
  assumes "list_all (\<lambda>i. LF \<notin> set (fst i) \<and> maps_ok (snd i) \<and> reparsable L (snd i)) kvs"
  shows "parse L (object_text (map (\<lambda>i. (fst i, stringify L (snd i))) kvs)) opt
           = Inr (JMap (store_all [] kvs))
         \<and> map_ok (store_all [] kvs)
         \<and> map_find (store_all [] kvs) = map_of (rev kvs)"
proof -
  define mems where "mems = map (\<lambda>i. (fst i, stringify L (snd i), snd i)) kvs"
  have t: "member_texts mems = map (\<lambda>i. (fst i, stringify L (snd i))) kvs"
    by (simp add: member_texts_def mems_def comp_def)
  have v: "member_values mems = kvs"
    by (simp add: member_values_def mems_def comp_def)
  have "list_all (member_ok L) mems"
    using assms by (simp add: mems_def list_all_iff member_ok_def stringify_parses_to)
  from parse_value_text[OF parses_to_Object[OF this], of opt]
  have "parse L (object_text (map (\<lambda>i. (fst i, stringify L (snd i))) kvs)) opt
           = Inr (JMap (store_all [] kvs))"
    unfolding t v .
  moreover have "map_ok (store_all [] kvs) \<and> map_of (store_all [] kvs) = map_of [] ++ map_of (rev kvs)"
    by (rule store_all_ok) (simp add: map_ok_def)
  ultimately show ?thesis
    by (simp add: map_find_def fun_eq_iff)
qed

text \<open>C9, a witness: \<^verbatim>\<open>{"a":1,"b":null,"a":2}\<close> parses to the Map of \<open>a\<close> bound to 2 and \<open>b\<close>
  bound to Null.\<close>

theorem duplicate_key_last_wins_witness:
  "list_all (\<lambda>i. LF \<notin> set (fst i) \<and> maps_ok (snd i) \<and> reparsable L0 (snd i))
     [(''a'', JInt 1), (''b'', JNull), (''a'', JInt 2)]
   \<and> object_text (map (\<lambda>i. (fst i, stringify L0 (snd i))) [(''a'', JInt 1), (''b'', JNull), (''a'', JInt 2)])
       = ''{\"a\":1,\"b\":null,\"a\":2}''
   \<and> parse L0 ''{\"a\":1,\"b\":null,\"a\":2}'' ParseOptions_init
       = Inr (JMap [(''a'', JInt 2), (''b'', JNull)])
   \<and> map_find [(''a'', JInt 2), (''b'', JNull :: unit JsonT)] ''a'' = Some (JInt 2)"
  using duplicate_key_last_wins [of L0 "[(''a'', JInt 1), (''b'', JNull), (''a'', JInt 2)]" ParseOptions_init]
  by (simp add: object_text_def member_text_def stringify_eval store_all_def
      map_store_def map_subscript_def map_find_def)

text \<open>C10. For the pointer \<^verbatim>\<open>/a"b\<close>, whatever the receiver, both \<^verbatim>\<open>at(Pointer)\<close> and
  \<^verbatim>\<open>operator[](Pointer)\<close> throw ParseException: the tokens are written into the JSON text
  \<^verbatim>\<open>["","a"b"]\<close>, which \<^verbatim>\<open>parse\<close> rejects at offset 7, and the operator catches
  \<^verbatim>\<open>out_of_range\<close> only.\<close>

theorem pointer_with_quote_throws_ParseException:
  "at_pointer L this ''/a\"b'' = Inl (ParseException 7)
   \<and> subscript_pointer L this ''/a\"b'' = Inl (ParseException 7)"
  by (simp add: pointer_eval parse_eval)

end
